theory Spec2Isabelle
  imports Main
begin

section \<open>Actions (src/app/types/actions.ts)\<close>

datatype language = Solidity | Rust | JavaScript

datatype target = Ethereum | Polygon | Bsc | Solana | Near

text \<open>
  \<^verbatim>\<open>BoltAction = FileAction | ShellAction | ContractAction\<close>, a union tagged by \<^verbatim>\<open>type\<close>.
  An optional property that is absent is \<open>None\<close>.
\<close>

datatype bolt_action =
    FileAction string string
  | ShellAction string
  | ContractAction string language string "target option" "bool option" "string option"

text \<open>
  \<^verbatim>\<open>{ ...action, ...data.action }\<close> on the action's own properties: a property of the new
  object replaces the old one, and a property the new object does not have keeps its old
  value. Only the optional properties of a contract action can be absent. Properties of the
  old object that the new \<^verbatim>\<open>type\<close> does not have stay on the JavaScript object and are read by
  no handler; the model drops them.
\<close>

fun or_else :: "'a option \<Rightarrow> 'a option \<Rightarrow> 'a option" where
  "or_else (Some x) _ = Some x"
| "or_else None y = y"

fun spread_action :: "bolt_action \<Rightarrow> bolt_action \<Rightarrow> bolt_action" where
  "spread_action (ContractAction _ _ _ t' p' d') (ContractAction c l f t p d) =
     ContractAction c l f (or_else t t') (or_else p p') (or_else d d')"
| "spread_action _ new = new"

section \<open>Action records (src/app/lib/runtime/action-runner.ts)\<close>

type_synonym action_id = string

datatype action_status = Pending | Running | Complete | Aborted | Failed

text \<open>
  \<^verbatim>\<open>ActionState\<close>. The \<^verbatim>\<open>abort\<close> closure and the \<^verbatim>\<open>abortSignal\<close> of a record are fixed
  at registration and belong to the identifier: they are the event \<open>Abort\<close> and the entry of
  \<open>abortSignals\<close> below. \<open>error\<close> is the \<^verbatim>\<open>error\<close> property of \<^verbatim>\<open>FailedActionState\<close>.
\<close>

record action_state =
  action :: bolt_action
  status :: action_status
  executed :: bool
  error :: "string option"

text \<open>\<^verbatim>\<open>ActionStateUpdate\<close>: every property is optional.\<close>

record action_update =
  new_action :: "bolt_action option"
  new_status :: "action_status option"
  new_executed :: "bool option"
  new_error :: "string option"

definition no_update :: action_update where
  "no_update = \<lparr>new_action = None, new_status = None, new_executed = None, new_error = None\<rparr>"

text \<open>\<^verbatim>\<open>{ ...actions[id], ...newState }\<close>\<close>

definition spread :: "action_state \<Rightarrow> action_update \<Rightarrow> action_state" where
  "spread a u =
     \<lparr>action = (case new_action u of None \<Rightarrow> action a | Some b \<Rightarrow> spread_action (action a) b),
      status = (case new_status u of None \<Rightarrow> status a | Some s \<Rightarrow> s),
      executed = (case new_executed u of None \<Rightarrow> executed a | Some e \<Rightarrow> e),
      error = (case new_error u of None \<Rightarrow> error a | Some e \<Rightarrow> Some e)\<rparr>"

section \<open>Promises and the microtask queue\<close>

text \<open>
  The part of the JavaScript run time that the runner relies on. A promise is pending
  (\<open>None\<close>) or settled; \<^verbatim>\<open>then\<close> and \<^verbatim>\<open>catch\<close> register a reaction on a promise and return a
  new promise, which the reaction's job settles; a reaction on a settled promise is queued
  as a job at once, the reactions of a pending promise are queued, in the order they were
  registered, when it settles; jobs run one at a time, oldest first.
\<close>

type_synonym promise_ref = nat

datatype settlement = Fulfilled | Rejected

text \<open>The three closures the runner passes to \<^verbatim>\<open>then\<close> and \<^verbatim>\<open>catch\<close>.\<close>

datatype callback =
    SetRunning action_id
  | ExecuteAction action_id
  | LogActionFailed

record reaction =
  on_fulfilled :: "callback option"
  on_rejected :: "callback option"
  derived :: promise_ref

record promise =
  state :: "settlement option"
  reactions :: "reaction list"

type_synonym job = "reaction \<times> settlement"

section \<open>The container and the handlers' effects\<close>

datatype error = Unreachable string | Thrown string

record compilation_result =
  success :: bool
  bytecode :: "string option"
  abi :: "string list option"
  errors :: "string list option"
  warnings :: "string list option"
  gasEstimates :: "string option"
  metadata :: "string option"

text \<open>What a handler writes: plain content, or an object passed to \<^verbatim>\<open>JSON.stringify\<close>.\<close>

datatype file_data =
    Text string
  | AbiJson "string list"
  | Report bool string language "target option" "string list" "string option" string
  | ErrorReport bool string language "string list" "string list" string

datatype effect =
    Spawn string
  | Mkdir string
  | WriteFile string file_data
  | ReadFile string
  | Compile string language string "bool option"
  | LoggerDebug string
  | LoggerInfo string
  | LoggerError string
  | ConsoleLog string
  | ConsoleError string

text \<open>
  The answers of everything outside the runner during one handler run: the WebContainer
  (\<^verbatim>\<open>this.#webcontainer\<close>, \<^verbatim>\<open>spawn\<close> with the exit code of the process, \<^verbatim>\<open>fs\<close>), the
  dynamic import of the compiler module and the compiler's answer, the clock, and the
  functions of \<^verbatim>\<open>node:path\<close>.
\<close>

record container =
  webcontainer :: "error + unit"
  spawn :: "string \<Rightarrow> error + int"
  mkdir :: "string \<Rightarrow> error + unit"
  writeFile :: "string \<Rightarrow> file_data \<Rightarrow> error + unit"
  readFile :: "string \<Rightarrow> error + string"
  import_compiler :: "error + unit"
  compile :: "string \<Rightarrow> language \<Rightarrow> string \<Rightarrow> bool option \<Rightarrow> error + compilation_result"
  now :: string
  dirname :: "string \<Rightarrow> string"
  basename :: "string \<Rightarrow> string \<Rightarrow> string"
  extname :: "string \<Rightarrow> string"
  join :: "string \<Rightarrow> string \<Rightarrow> string"

text \<open>
  A handler run: the effects it had, in order, and how it ended (\<open>Inl\<close>: it threw).
\<close>

type_synonym 'a io = "effect list \<times> (error + 'a)"

definition ret :: "'a \<Rightarrow> 'a io" where
  "ret x = ([], Inr x)"

definition throw :: "error \<Rightarrow> 'a io" where
  "throw e = ([], Inl e)"

definition await :: "error + 'a \<Rightarrow> 'a io" where
  "await answer = ([], answer)"

definition emit :: "effect \<Rightarrow> unit io" where
  "emit f = ([f], Inr ())"

definition call :: "effect \<Rightarrow> error + 'a \<Rightarrow> 'a io" where
  "call f answer = ([f], answer)"

definition bind :: "'a io \<Rightarrow> ('a \<Rightarrow> 'b io) \<Rightarrow> 'b io" where
  "bind m k =
     (case m of
        (w, Inl e) \<Rightarrow> (w, Inl e)
      | (w, Inr x) \<Rightarrow> (case k x of (w', r) \<Rightarrow> (w @ w', r)))"

definition try_catch :: "'a io \<Rightarrow> (error \<Rightarrow> 'a io) \<Rightarrow> 'a io" where
  "try_catch m h =
     (case m of
        (w, Inl e) \<Rightarrow> (case h e of (w', r) \<Rightarrow> (w @ w', r))
      | (w, Inr x) \<Rightarrow> (w, Inr x))"

definition only_if :: "bool \<Rightarrow> unit io \<Rightarrow> unit io" where
  "only_if b m = (if b then m else ret ())"

subsection \<open>The handlers\<close>

definition runShellAction :: "container \<Rightarrow> action_state \<Rightarrow> unit io" where
  "runShellAction sb a =
     (case action a of
        ShellAction content \<Rightarrow>
          bind (await (webcontainer sb)) (\<lambda>_.
          bind (call (Spawn content) (spawn sb content)) (\<lambda>exitCode.
          emit (LoggerDebug ''Process terminated with code'')))
      | _ \<Rightarrow> throw (Unreachable ''Expected shell action''))"

text \<open>\<^verbatim>\<open>folder.replace(/\/+$/g, '')\<close>\<close>

definition remove_trailing_slashes :: "string \<Rightarrow> string" where
  "remove_trailing_slashes s = rev (dropWhile (\<lambda>c. c = CHR ''/'') (rev s))"

definition runFileAction :: "container \<Rightarrow> action_state \<Rightarrow> unit io" where
  "runFileAction sb a =
     (case action a of
        FileAction content filePath \<Rightarrow>
          bind (await (webcontainer sb)) (\<lambda>_.
          let folder = remove_trailing_slashes (dirname sb filePath) in
          bind (only_if (folder \<noteq> ''.'')
                 (try_catch
                    (bind (call (Mkdir folder) (mkdir sb folder)) (\<lambda>_.
                     emit (LoggerDebug ''Created folder'')))
                    (\<lambda>e. emit (LoggerError ''Failed to create folder'')))) (\<lambda>_.
          try_catch
            (bind (call (WriteFile filePath (Text content)) (writeFile sb filePath (Text content))) (\<lambda>_.
             emit (LoggerDebug ''File written'')))
            (\<lambda>e. emit (LoggerError ''Failed to write file''))))
      | _ \<Rightarrow> throw (Unreachable ''Expected file action''))"

text \<open>JavaScript truthiness of an optional string, and \<^verbatim>\<open>x || y\<close> on optional values.\<close>

fun truthy :: "string option \<Rightarrow> bool" where
  "truthy None = False"
| "truthy (Some s) = (s \<noteq> [])"

fun or_empty :: "'a list option \<Rightarrow> 'a list" where
  "or_empty None = []"
| "or_empty (Some xs) = xs"

definition nonempty :: "string list option \<Rightarrow> bool" where
  "nonempty ws = (case ws of None \<Rightarrow> False | Some xs \<Rightarrow> length xs > 0)"

definition outputDir_of :: "string option \<Rightarrow> string" where
  "outputDir_of d = (if truthy d then the d else ''contracts/artifacts'')"

definition outputPath_of :: "container \<Rightarrow> string option \<Rightarrow> string \<Rightarrow> string" where
  "outputPath_of sb d filePath =
     join sb (outputDir_of d) (basename sb filePath (extname sb filePath))"

definition write_artifacts :: "container \<Rightarrow> string \<Rightarrow> compilation_result \<Rightarrow> unit io" where
  "write_artifacts sb outputPath result =
     bind (only_if (truthy (bytecode result))
            (call (WriteFile (outputPath @ ''.bin'') (Text (the (bytecode result))))
                  (writeFile sb (outputPath @ ''.bin'') (Text (the (bytecode result)))))) (\<lambda>_.
     bind (only_if (abi result \<noteq> None)
            (call (WriteFile (outputPath @ ''.abi.json'') (AbiJson (the (abi result))))
                  (writeFile sb (outputPath @ ''.abi.json'') (AbiJson (the (abi result)))))) (\<lambda>_.
     only_if (truthy (metadata result))
       (call (WriteFile (outputPath @ ''.metadata.json'') (Text (the (metadata result))))
             (writeFile sb (outputPath @ ''.metadata.json'') (Text (the (metadata result)))))))"

definition runContractAction :: "container \<Rightarrow> action_state \<Rightarrow> unit io" where
  "runContractAction sb a =
     (case action a of
        ContractAction content lang filePath tgt opt dir \<Rightarrow>
          try_catch
            (bind (await (import_compiler sb)) (\<lambda>_.
             bind (await (webcontainer sb)) (\<lambda>_.
             bind (call (ReadFile filePath) (readFile sb filePath)) (\<lambda>sourceCode.
             bind (call (Compile sourceCode lang filePath opt) (compile sb sourceCode lang filePath opt)) (\<lambda>result.
             let outputDir = outputDir_of dir;
                 outputPath = outputPath_of sb dir filePath in
             bind (try_catch
                    (call (Mkdir outputDir) (mkdir sb outputDir))
                    (\<lambda>e. emit (LoggerDebug ''Output directory already exists or failed to create''))) (\<lambda>_.
             if success result then
               bind (write_artifacts sb outputPath result) (\<lambda>_.
               let report = Report True filePath lang tgt (or_empty (warnings result))
                              (gasEstimates result) (now sb) in
               bind (call (WriteFile (outputPath @ ''.report.json'') report)
                          (writeFile sb (outputPath @ ''.report.json'') report)) (\<lambda>_.
               bind (emit (LoggerInfo ''Contract compiled successfully'')) (\<lambda>_.
               bind (emit (ConsoleLog ''Contract compilation successful'')) (\<lambda>_.
               only_if (nonempty (warnings result)) (emit (ConsoleLog ''Warnings''))))))
             else
               let errorReport = ErrorReport False filePath lang (or_empty (errors result))
                                   (or_empty (warnings result)) (now sb) in
               bind (call (WriteFile (outputPath @ ''.error.json'') errorReport)
                          (writeFile sb (outputPath @ ''.error.json'') errorReport)) (\<lambda>_.
               bind (emit (LoggerError ''Contract compilation failed'')) (\<lambda>_.
               bind (emit (ConsoleError ''Contract compilation failed'')) (\<lambda>_.
               bind (only_if (nonempty (warnings result)) (emit (ConsoleLog ''Warnings''))) (\<lambda>_.
               throw (Thrown ''Compilation failed'')))))))))))
            (\<lambda>e. bind (emit (LoggerError ''Contract action failed'')) (\<lambda>_. throw e))
      | _ \<Rightarrow> throw (Unreachable ''Expected contract action''))"

text \<open>The \<^verbatim>\<open>switch (action.type)\<close> of \<^verbatim>\<open>#executeAction\<close>.\<close>

definition run_handler :: "container \<Rightarrow> action_state \<Rightarrow> unit io" where
  "run_handler sb a =
     (case action a of
        ShellAction _ \<Rightarrow> runShellAction sb a
      | FileAction _ _ \<Rightarrow> runFileAction sb a
      | ContractAction _ _ _ _ _ _ \<Rightarrow> runContractAction sb a)"

section \<open>The runner\<close>

text \<open>
  What an observer of the runner sees, in order: the handler of an action is called, the
  handler has settled, and the effects of the handlers and of the \<^verbatim>\<open>catch\<close> callback.
  No operation reads the trace.
\<close>

datatype obs = Started action_id | Ended action_id | Effect effect

text \<open>
  \<open>actions\<close> is the store \<^verbatim>\<open>this.actions\<close>; \<open>abortSignals i\<close> is \<^verbatim>\<open>aborted\<close> of the
  \<^verbatim>\<open>AbortSignal\<close> that \<^verbatim>\<open>addAction\<close> created for \<open>i\<close> (one object, shared by every copy of the
  record); \<open>suspended\<close> holds the calls of \<^verbatim>\<open>#executeAction\<close> that wait for their handler:
  the identifier, the record read at the start (\<^verbatim>\<open>const action\<close>) and the promise that the
  call's result settles.
\<close>

record runner =
  actions :: "action_id \<rightharpoonup> action_state"
  abortSignals :: "action_id \<Rightarrow> bool"
  currentExecutionPromise :: promise_ref
  promises :: "promise_ref \<Rightarrow> promise"
  next_promise :: promise_ref
  microtasks :: "job list"
  suspended :: "(action_id \<times> action_state \<times> promise_ref) list"
  trace :: "obs list"

subsection \<open>Promise operations\<close>

definition new_promise :: "runner \<Rightarrow> promise_ref \<times> runner" where
  "new_promise r =
     (next_promise r,
      r\<lparr>promises := (promises r)(next_promise r := \<lparr>state = None, reactions = []\<rparr>),
        next_promise := Suc (next_promise r)\<rparr>)"

text \<open>Settling a promise that is settled already changes nothing.\<close>

definition settle :: "promise_ref \<Rightarrow> settlement \<Rightarrow> runner \<Rightarrow> runner" where
  "settle p s r =
     (case state (promises r p) of
        Some _ \<Rightarrow> r
      | None \<Rightarrow>
          r\<lparr>promises := (promises r)(p := \<lparr>state = Some s, reactions = []\<rparr>),
            microtasks := microtasks r @ map (\<lambda>x. (x, s)) (reactions (promises r p))\<rparr>)"

definition register :: "promise_ref \<Rightarrow> reaction \<Rightarrow> runner \<Rightarrow> runner" where
  "register p x r =
     (case state (promises r p) of
        None \<Rightarrow>
          r\<lparr>promises := (promises r)
               (p := \<lparr>state = None, reactions = reactions (promises r p) @ [x]\<rparr>)\<rparr>
      | Some s \<Rightarrow> r\<lparr>microtasks := microtasks r @ [(x, s)]\<rparr>)"

text \<open>\<^verbatim>\<open>p.then(cb)\<close> and \<^verbatim>\<open>p.catch(cb)\<close>: the reaction, and the promise they return.\<close>

definition then_reaction :: "callback \<Rightarrow> promise_ref \<Rightarrow> reaction" where
  "then_reaction cb d = \<lparr>on_fulfilled = Some cb, on_rejected = None, derived = d\<rparr>"

definition catch_reaction :: "callback \<Rightarrow> promise_ref \<Rightarrow> reaction" where
  "catch_reaction cb d = \<lparr>on_fulfilled = None, on_rejected = Some cb, derived = d\<rparr>"

definition promise_then :: "promise_ref \<Rightarrow> callback \<Rightarrow> runner \<Rightarrow> promise_ref \<times> runner" where
  "promise_then p cb r =
     (case new_promise r of (d, r') \<Rightarrow> (d, register p (then_reaction cb d) r'))"

definition promise_catch :: "promise_ref \<Rightarrow> callback \<Rightarrow> runner \<Rightarrow> promise_ref \<times> runner" where
  "promise_catch p cb r =
     (case new_promise r of (d, r') \<Rightarrow> (d, register p (catch_reaction cb d) r'))"

subsection \<open>The methods of \<^verbatim>\<open>ActionRunner\<close>\<close>

text \<open>
  \<^verbatim>\<open>#updateAction\<close>. Every call is made for an identifier that has a record (the closure
  and the callback of \<^verbatim>\<open>addAction\<close> are created after \<^verbatim>\<open>setKey\<close>, \<^verbatim>\<open>runAction\<close> checks, and
  no record is ever removed); for an identifier with no record the source would store the
  update alone, and the model leaves the store as it is.
\<close>

definition updateAction :: "action_id \<Rightarrow> action_update \<Rightarrow> runner \<Rightarrow> runner" where
  "updateAction actionId newState r =
     (case actions r actionId of
        None \<Rightarrow> r
      | Some a \<Rightarrow> r\<lparr>actions := (actions r)(actionId \<mapsto> spread a newState)\<rparr>)"

definition addAction :: "action_id \<Rightarrow> bolt_action \<Rightarrow> runner \<Rightarrow> runner" where
  "addAction actionId act r =
     (case actions r actionId of
        Some _ \<Rightarrow> r
      | None \<Rightarrow>
          (let r1 = r\<lparr>actions := (actions r)
                       (actionId \<mapsto> \<lparr>action = act, status = Pending, executed = False, error = None\<rparr>),
                     abortSignals := (abortSignals r)(actionId := False)\<rparr>
           in snd (promise_then (currentExecutionPromise r1) (SetRunning actionId) r1)))"

text \<open>The record as an update: \<^verbatim>\<open>{ ...action }\<close>.\<close>

definition as_update :: "action_state \<Rightarrow> action_update" where
  "as_update a =
     \<lparr>new_action = Some (action a), new_status = Some (status a),
      new_executed = Some (executed a), new_error = error a\<rparr>"

definition runAction :: "action_id \<Rightarrow> bolt_action \<Rightarrow> runner \<Rightarrow> error + runner" where
  "runAction actionId act r =
     (case actions r actionId of
        None \<Rightarrow> Inl (Unreachable ''Action not found'')
      | Some a \<Rightarrow>
          if executed a then Inr r
          else
            (let r1 = updateAction actionId
                        ((as_update a)\<lparr>new_action := Some (spread_action (action a) act),
                                       new_executed := Some True\<rparr>) r
             in case promise_then (currentExecutionPromise r1) (ExecuteAction actionId) r1 of
                  (t, r2) \<Rightarrow>
                    (case promise_catch t LogActionFailed r2 of
                       (c, r3) \<Rightarrow> Inr (r3\<lparr>currentExecutionPromise := c\<rparr>))))"

text \<open>
  \<^verbatim>\<open>#executeAction\<close> up to the \<^verbatim>\<open>await\<close> of the handler. \<open>p\<close> is the promise that the call's
  result settles: the one \<^verbatim>\<open>then\<close> returned, which adopts the promise of the \<^verbatim>\<open>async\<close>
  function. With no record (never the case, see \<open>updateAction\<close>) reading \<^verbatim>\<open>action.type\<close>
  throws.
\<close>

definition executeAction :: "action_id \<Rightarrow> promise_ref \<Rightarrow> runner \<Rightarrow> runner" where
  "executeAction actionId p r =
     (case actions r actionId of
        None \<Rightarrow> settle p Rejected r
      | Some a \<Rightarrow>
          (let r1 = updateAction actionId (no_update\<lparr>new_status := Some Running\<rparr>) r
           in r1\<lparr>suspended := suspended r1 @ [(actionId, a, p)],
                 trace := trace r1 @ [Started actionId]\<rparr>))"

text \<open>
  The rest of \<^verbatim>\<open>#executeAction\<close>, once the handler has settled with the container's answers
  \<open>sb\<close>: the status update after the \<^verbatim>\<open>switch\<close>, or the \<^verbatim>\<open>catch\<close> block and its re-throw.
\<close>

definition resumeExecuteAction ::
    "container \<Rightarrow> action_id \<times> action_state \<times> promise_ref \<Rightarrow> runner \<Rightarrow> runner" where
  "resumeExecuteAction sb c r =
     (case c of (actionId, a, p) \<Rightarrow>
        (case run_handler sb a of
           (fx, Inr _) \<Rightarrow>
             settle p Fulfilled
               (updateAction actionId
                  (no_update\<lparr>new_status :=
                     Some (if abortSignals r actionId then Aborted else Complete)\<rparr>)
                  (r\<lparr>trace := trace r @ map Effect fx @ [Ended actionId]\<rparr>))
         | (fx, Inl e) \<Rightarrow>
             settle p Rejected
               (updateAction actionId
                  (no_update\<lparr>new_status := Some Failed, new_error := Some ''Action failed''\<rparr>)
                  (r\<lparr>trace := trace r @ map Effect fx @ [Ended actionId]\<rparr>))))"

text \<open>
  The \<^verbatim>\<open>abort\<close> closure of a record. The listener that a shell handler adds to the signal
  asks the container to kill the process; what the process then does is the container's answer
  to the handler.
\<close>

definition abort :: "action_id \<Rightarrow> runner \<Rightarrow> runner" where
  "abort actionId r =
     updateAction actionId (no_update\<lparr>new_status := Some Aborted\<rparr>)
       (r\<lparr>abortSignals := (abortSignals r)(actionId := True)\<rparr>)"

subsection \<open>Jobs\<close>

definition run_callback :: "callback \<Rightarrow> promise_ref \<Rightarrow> runner \<Rightarrow> runner" where
  "run_callback cb d r =
     (case cb of
        SetRunning actionId \<Rightarrow>
          settle d Fulfilled (updateAction actionId (no_update\<lparr>new_status := Some Running\<rparr>) r)
      | ExecuteAction actionId \<Rightarrow> executeAction actionId d r
      | LogActionFailed \<Rightarrow>
          settle d Fulfilled (r\<lparr>trace := trace r @ [Effect (ConsoleError ''Action failed:'')]\<rparr>))"

text \<open>A reaction with no callback for the settlement passes the settlement on.\<close>

definition run_job :: "job \<Rightarrow> runner \<Rightarrow> runner" where
  "run_job j r =
     (case j of (x, s) \<Rightarrow>
        (case (case s of Fulfilled \<Rightarrow> on_fulfilled x | Rejected \<Rightarrow> on_rejected x) of
           None \<Rightarrow> settle (derived x) s r
         | Some cb \<Rightarrow> run_callback cb (derived x) r))"

definition microtask :: "runner \<Rightarrow> runner" where
  "microtask r =
     (case microtasks r of
        [] \<Rightarrow> r
      | j # js \<Rightarrow> run_job j (r\<lparr>microtasks := js\<rparr>))"

definition handlerSettles :: "action_id \<Rightarrow> container \<Rightarrow> runner \<Rightarrow> runner" where
  "handlerSettles actionId sb r =
     (case find (\<lambda>c. fst c = actionId) (suspended r) of
        None \<Rightarrow> r
      | Some c \<Rightarrow> resumeExecuteAction sb c (r\<lparr>suspended := remove1 c (suspended r)\<rparr>))"

subsection \<open>Runs\<close>

text \<open>
  What can happen to a runner: a call of \<^verbatim>\<open>addAction\<close> or \<^verbatim>\<open>runAction\<close> (registration and
  finalize), a call of a record's \<^verbatim>\<open>abort\<close>, the oldest job of the microtask queue runs, or
  the handler of a suspended \<^verbatim>\<open>#executeAction\<close> settles. A \<^verbatim>\<open>runAction\<close> that throws leaves
  the runner as it was. An \<^verbatim>\<open>abort\<close> closure exists only for an identifier with a record.
\<close>

datatype event =
    AddAction action_id bolt_action
  | RunAction action_id bolt_action
  | Abort action_id
  | Microtask
  | HandlerSettles action_id container

fun step :: "event \<Rightarrow> runner \<Rightarrow> runner" where
  "step (AddAction i a) r = addAction i a r"
| "step (RunAction i a) r = (case runAction i a r of Inl _ \<Rightarrow> r | Inr r' \<Rightarrow> r')"
| "step (Abort i) r = (if actions r i = None then r else abort i r)"
| "step Microtask r = microtask r"
| "step (HandlerSettles i sb) r = handlerSettles i sb r"

definition run :: "event list \<Rightarrow> runner \<Rightarrow> runner" where
  "run es r = foldl (\<lambda>r e. step e r) r es"

text \<open>\<^verbatim>\<open>new ActionRunner(...)\<close>: no record, and \<^verbatim>\<open>Promise.resolve()\<close> as the current promise.\<close>

definition init :: runner where
  "init =
     \<lparr>actions = Map.empty, abortSignals = (\<lambda>_. False), currentExecutionPromise = 0,
      promises = (\<lambda>_. \<lparr>state = None, reactions = []\<rparr>)(0 := \<lparr>state = Some Fulfilled, reactions = []\<rparr>),
      next_promise = 1, microtasks = [], suspended = [], trace = []\<rparr>"

text \<open>
  The identifiers in the order of their finalize: the calls of \<^verbatim>\<open>runAction\<close> among the
  events that found a record not yet executed.
\<close>

definition finalizes :: "event \<Rightarrow> runner \<Rightarrow> action_id list" where
  "finalizes e r =
     (case e of
        RunAction i a \<Rightarrow>
          (case actions r i of None \<Rightarrow> [] | Some st \<Rightarrow> if executed st then [] else [i])
      | _ \<Rightarrow> [])"

fun finalized :: "runner \<Rightarrow> event list \<Rightarrow> action_id list" where
  "finalized r [] = []"
| "finalized r (e # es) = finalizes e r @ finalized (step e r) es"

subsection \<open>Observations\<close>

text \<open>
  The calls and returns of the handlers in a trace, without the effects; the identifiers
  whose handler was called, and of those whose handler has settled, in order.
\<close>

fun is_call :: "obs \<Rightarrow> bool" where
  "is_call (Effect _) = False"
| "is_call _ = True"

definition calls :: "obs list \<Rightarrow> obs list" where
  "calls t = filter is_call t"

fun started :: "obs list \<Rightarrow> action_id list" where
  "started [] = []"
| "started (Started i # t) = i # started t"
| "started (_ # t) = started t"

fun ended :: "obs list \<Rightarrow> action_id list" where
  "ended [] = []"
| "ended (Ended i # t) = i # ended t"
| "ended (_ # t) = ended t"

text \<open>
  \<open>serial F t\<close>: the calls \<open>t\<close> are those of handlers that ran one at a time in the order
  \<open>F\<close>: every call is followed at once by its own return, but for the last one, whose
  handler may still run, and the identifiers are the first ones of \<open>F\<close>, in that order.
\<close>

fun serial :: "action_id list \<Rightarrow> obs list \<Rightarrow> bool" where
  "serial F [] = True"
| "serial (a # F) [Started b] = (a = b)"
| "serial (a # F) (Started b # Ended c # t) = (a = b \<and> a = c \<and> serial F t)"
| "serial _ _ = False"

text \<open>
  The event loop empties the microtask queue before it takes up anything else; the loop
  goes on for as long as jobs queue new jobs.
\<close>

partial_function (option) drain :: "runner \<Rightarrow> runner option" where
  "drain r = (if microtasks r = [] then Some r else drain (microtask r))"

subsection \<open>A sample container\<close>

text \<open>
  Answers used to evaluate the model on concrete runs: the process exits with \<open>exitCode\<close>,
  \<^verbatim>\<open>mkdir\<close> and \<^verbatim>\<open>writeFile\<close> answer \<open>mk\<close> and \<open>wr\<close>, the compiler reports the errors
  \<open>errs\<close>; the functions of \<^verbatim>\<open>node:path\<close> give the answers for the paths \<^verbatim>\<open>src/a.txt\<close> and
  \<^verbatim>\<open>C.sol\<close> of the examples.
\<close>

definition sample_container :: "int \<Rightarrow> error + unit \<Rightarrow> error + unit \<Rightarrow> string list \<Rightarrow> container" where
  "sample_container exitCode mk wr errs =
     \<lparr>webcontainer = Inr (), spawn = (\<lambda>_. Inr exitCode), mkdir = (\<lambda>_. mk),
      writeFile = (\<lambda>_ _. wr), readFile = (\<lambda>_. Inr ''contract C {''), import_compiler = Inr (),
      compile = (\<lambda>_ _ _ _. Inr \<lparr>success = False, bytecode = None, abi = None,
                   errors = Some errs, warnings = None, gasEstimates = None, metadata = None\<rparr>),
      now = ''2024-01-01T00:00:00.000Z'', dirname = (\<lambda>_. ''src''), basename = (\<lambda>_ _. ''C''),
      extname = (\<lambda>_. ''.sol''), join = (\<lambda>a b. a @ ''/'' @ b)\<rparr>"

section \<open>The promise chain\<close>

text \<open>
  Every call of \<^verbatim>\<open>runAction\<close> that passes the \<^verbatim>\<open>executed\<close> check adds a link to a chain: the
  identifier, the promise of \<^verbatim>\<open>then\<close> and the promise of \<^verbatim>\<open>catch\<close>, which becomes the
  current promise. The chain starts at promise \<open>0\<close>.
\<close>

datatype link = Link (link_id: action_id) (link_then: promise_ref) (link_catch: promise_ref)

definition link_refs :: "link list \<Rightarrow> promise_ref list" where
  "link_refs ls = concat (map (\<lambda>l. [link_then l, link_catch l]) ls)"

fun tail_catch :: "promise_ref \<Rightarrow> link list \<Rightarrow> promise_ref" where
  "tail_catch c [] = c"
| "tail_catch c (l # ls) = tail_catch (link_catch l) ls"

definition refs_of :: "link list \<Rightarrow> promise_ref list" where
  "refs_of ls = 0 # link_refs ls"

text \<open>
  A reaction of \<^verbatim>\<open>addAction\<close>: it sets running an identifier outside \<open>X\<close> and settles a
  promise that is allocated and is not one of the chain's (\<open>R\<close>).
\<close>

definition sr_reaction :: "action_id set \<Rightarrow> promise_ref set \<Rightarrow> nat \<Rightarrow> reaction \<Rightarrow> bool" where
  "sr_reaction X R n x \<longleftrightarrow> (\<exists>i d. x = then_reaction (SetRunning i) d \<and> i \<notin> X \<and> d \<notin> R \<and> d < n)"

definition sr_job :: "action_id set \<Rightarrow> promise_ref set \<Rightarrow> nat \<Rightarrow> job \<Rightarrow> bool" where
  "sr_job X R n j \<longleftrightarrow> (\<exists>x. j = (x, Fulfilled) \<and> sr_reaction X R n x)"

text \<open>
  The links that wait behind the pending promise \<open>c\<close>: \<open>c\<close> holds reactions of
  \<^verbatim>\<open>addAction\<close> and then, last, the one that executes the next link; the \<^verbatim>\<open>then\<close> promise of
  that link is pending and holds its \<^verbatim>\<open>catch\<close> reaction. An identifier registered on the
  promise of a link was registered after that link was finalized, so it is none of the
  identifiers up to that link.
\<close>

fun waiting ::
  "runner \<Rightarrow> promise_ref set \<Rightarrow> nat \<Rightarrow> action_id set \<Rightarrow> promise_ref \<Rightarrow> link list \<Rightarrow> bool" where
  "waiting r R n X c [] \<longleftrightarrow>
     state (promises r c) = None \<and> (\<forall>x\<in>set (reactions (promises r c)). sr_reaction X R n x)"
| "waiting r R n X c (l # ls) \<longleftrightarrow>
     state (promises r c) = None \<and>
     (\<exists>srs. reactions (promises r c) = srs @ [then_reaction (ExecuteAction (link_id l)) (link_then l)] \<and>
            (\<forall>x\<in>set srs. sr_reaction X R n x)) \<and>
     promises r (link_then l) = \<lparr>state = None, reactions = [catch_reaction LogActionFailed (link_catch l)]\<rparr> \<and>
     waiting r R n (insert (link_id l) X) (link_catch l) ls"

definition pairs :: "link list \<Rightarrow> obs list" where
  "pairs ls = concat (map (\<lambda>l. [Started (link_id l), Ended (link_id l)]) ls)"

text \<open>
  Where the first link that is not done stands: the job that executes it is in the queue,
  last, behind jobs of \<^verbatim>\<open>addAction\<close>; or its handler runs, and the queue is empty; or its
  handler has settled and the job of its \<^verbatim>\<open>catch\<close> reaction is alone in the queue. With no
  such link, the queue holds jobs of \<^verbatim>\<open>addAction\<close> only.
\<close>

definition idle :: "link list \<Rightarrow> runner \<Rightarrow> bool" where
  "idle dn r \<longleftrightarrow>
     (\<forall>j\<in>set (microtasks r). sr_job (set (map link_id dn)) (set (refs_of dn)) (next_promise r) j) \<and>
     suspended r = [] \<and> calls (trace r) = pairs dn"

definition queued :: "link list \<Rightarrow> link \<Rightarrow> link list \<Rightarrow> runner \<Rightarrow> bool" where
  "queued dn l ls r \<longleftrightarrow>
     (\<exists>js. microtasks r = js @ [(then_reaction (ExecuteAction (link_id l)) (link_then l), Fulfilled)] \<and>
           (\<forall>j\<in>set js. sr_job (set (map link_id dn)) (set (refs_of (dn @ l # ls))) (next_promise r) j)) \<and>
     suspended r = [] \<and>
     promises r (link_then l) = \<lparr>state = None, reactions = [catch_reaction LogActionFailed (link_catch l)]\<rparr> \<and>
     calls (trace r) = pairs dn"

definition inflight :: "link list \<Rightarrow> link \<Rightarrow> runner \<Rightarrow> bool" where
  "inflight dn l r \<longleftrightarrow>
     microtasks r = [] \<and> (\<exists>snap. suspended r = [(link_id l, snap, link_then l)]) \<and>
     promises r (link_then l) = \<lparr>state = None, reactions = [catch_reaction LogActionFailed (link_catch l)]\<rparr> \<and>
     calls (trace r) = pairs dn @ [Started (link_id l)]"

definition catching :: "link list \<Rightarrow> link \<Rightarrow> runner \<Rightarrow> bool" where
  "catching dn l r \<longleftrightarrow>
     (\<exists>s. microtasks r = [(catch_reaction LogActionFailed (link_catch l), s)] \<and>
          promises r (link_then l) = \<lparr>state = Some s, reactions = []\<rparr>) \<and>
     suspended r = [] \<and>
     calls (trace r) = pairs dn @ [Started (link_id l), Ended (link_id l)]"

definition front :: "link list \<Rightarrow> link list \<Rightarrow> runner \<Rightarrow> bool" where
  "front dn rest r \<longleftrightarrow>
     (case rest of
        [] \<Rightarrow> idle dn r
      | l # ls \<Rightarrow>
          waiting r (set (refs_of (dn @ l # ls))) (next_promise r)
            (insert (link_id l) (set (map link_id dn))) (link_catch l) ls \<and>
          (queued dn l ls r \<or> inflight dn l r \<or> catching dn l r))"

text \<open>
  The store: the links have distinct identifiers and distinct, allocated promises; no other
  promise holds a reaction; the finalized identifiers are those with \<^verbatim>\<open>executed\<close> set; the
  promises of the links that are done are settled, the \<^verbatim>\<open>catch\<close> ones fulfilled; the current
  promise is the last \<^verbatim>\<open>catch\<close> promise.
\<close>

definition store :: "link list \<Rightarrow> link list \<Rightarrow> runner \<Rightarrow> bool" where
  "store dn rest r \<longleftrightarrow>
     distinct (map link_id (dn @ rest)) \<and>
     distinct (refs_of (dn @ rest)) \<and>
     (\<forall>p\<in>set (refs_of (dn @ rest)). p < next_promise r) \<and>
     (\<forall>p. p \<notin> set (refs_of (dn @ rest)) \<longrightarrow> reactions (promises r p) = []) \<and>
     (\<forall>i. i \<in> set (map link_id (dn @ rest)) \<longleftrightarrow> (\<exists>st. actions r i = Some st \<and> executed st)) \<and>
     promises r 0 = \<lparr>state = Some Fulfilled, reactions = []\<rparr> \<and>
     (\<forall>l\<in>set dn. state (promises r (link_then l)) \<noteq> None \<and> reactions (promises r (link_then l)) = [] \<and>
                 promises r (link_catch l) = \<lparr>state = Some Fulfilled, reactions = []\<rparr>) \<and>
     currentExecutionPromise r = tail_catch 0 (dn @ rest)"

definition shape :: "link list \<Rightarrow> link list \<Rightarrow> runner \<Rightarrow> bool" where
  "shape dn rest r \<longleftrightarrow> store dn rest r \<and> front dn rest r"

definition inv :: "action_id list \<Rightarrow> runner \<Rightarrow> bool" where
  "inv F r \<longleftrightarrow> (\<exists>dn rest. F = map link_id (dn @ rest) \<and> shape dn rest r)"


text \<open>
  Records stay: from \<open>r\<close> to \<open>r'\<close> no record is removed, none has \<^verbatim>\<open>executed\<close> reset and
  none returns to \<open>Pending\<close>.
\<close>

definition grows :: "runner \<Rightarrow> runner \<Rightarrow> bool" where
  "grows r r' \<longleftrightarrow>
     (\<forall>i st. actions r i = Some st \<longrightarrow>
        (\<exists>st'. actions r' i = Some st' \<and> (executed st \<longrightarrow> executed st') \<and>
               (status st \<noteq> Pending \<longrightarrow> status st' \<noteq> Pending)))"

text \<open>A run that finalizes one action four times.\<close>

definition twice_finalized :: "event list" where
  "twice_finalized =
     [AddAction ''a'' (ShellAction ''ls''), RunAction ''a'' (ShellAction ''ls''),
      RunAction ''a'' (ShellAction ''ls''), Microtask, Microtask,
      RunAction ''a'' (ShellAction ''ls''),
      HandlerSettles ''a'' (sample_container 0 (Inr ()) (Inr ()) []), Microtask,
      RunAction ''a'' (ShellAction ''ls''), Microtask]"

text \<open>The terminal states.\<close>

definition terminal :: "action_status \<Rightarrow> bool" where
  "terminal s \<longleftrightarrow> s = Complete \<or> s = Aborted \<or> s = Failed"

text \<open>
  Sample runs: the action \<^verbatim>\<open>a\<close> is registered, finalized, executed and settles; the action
  \<^verbatim>\<open>b\<close> is registered while \<^verbatim>\<open>a\<close> runs and cancelled at once.
\<close>

definition settled_run :: "event list" where
  "settled_run =
     [AddAction ''a'' (ShellAction ''ls''), RunAction ''a'' (ShellAction ''ls''),
      Microtask, Microtask, HandlerSettles ''a'' (sample_container 0 (Inr ()) (Inr ()) [])]"

definition cancelled_pending :: "event list" where
  "cancelled_pending =
     [AddAction ''a'' (ShellAction ''ls''), RunAction ''a'' (ShellAction ''ls''),
      Microtask, Microtask, AddAction ''b'' (ShellAction ''rm -r *''), Abort ''b'']"

definition cancelled_then_finalized :: "event list" where
  "cancelled_then_finalized =
     cancelled_pending @
     [RunAction ''b'' (ShellAction ''rm -r *''),
      HandlerSettles ''a'' (sample_container 0 (Inr ()) (Inr ()) []),
      Microtask, Microtask, Microtask]"

text \<open>The events at which a handler's promise settles.\<close>

fun is_settle :: "event \<Rightarrow> bool" where
  "is_settle (HandlerSettles _ _) = True"
| "is_settle _ = False"

text \<open>
  A run in which the contract action \<^verbatim>\<open>a\<close> is being executed while the shell action \<^verbatim>\<open>b\<close>,
  finalized after it, waits.
\<close>

definition contract_running :: "event list" where
  "contract_running =
     [AddAction ''a'' (ContractAction [] Solidity ''C.sol'' None None None),
      RunAction ''a'' (ContractAction ''contract C {'' Solidity ''C.sol'' None None None),
      AddAction ''b'' (ShellAction ''npm test''), RunAction ''b'' (ShellAction ''npm test''),
      Microtask, Microtask]"






section \<open>Basic facts\<close>

lemmas eval_defs = run_def addAction_def runAction_def promise_then_def promise_catch_def
  then_reaction_def catch_reaction_def
  new_promise_def register_def settle_def updateAction_def as_update_def spread_def no_update_def
  microtask_def run_job_def run_callback_def executeAction_def handlerSettles_def
  resumeExecuteAction_def abort_def init_def

lemmas handler_defs = run_handler_def runShellAction_def runFileAction_def runContractAction_def
  write_artifacts_def outputDir_of_def outputPath_of_def remove_trailing_slashes_def nonempty_def
  bind_def try_catch_def call_def emit_def await_def ret_def throw_def only_if_def

lemma settle_fields [simp]:
  "actions (settle p s r) = actions r"
  "abortSignals (settle p s r) = abortSignals r"
  "currentExecutionPromise (settle p s r) = currentExecutionPromise r"
  "next_promise (settle p s r) = next_promise r"
  "suspended (settle p s r) = suspended r"
  "trace (settle p s r) = trace r"
  by (simp_all add: settle_def split: option.splits)

lemma updateAction_fields [simp]:
  "abortSignals (updateAction i u r) = abortSignals r"
  "currentExecutionPromise (updateAction i u r) = currentExecutionPromise r"
  "promises (updateAction i u r) = promises r"
  "next_promise (updateAction i u r) = next_promise r"
  "microtasks (updateAction i u r) = microtasks r"
  "suspended (updateAction i u r) = suspended r"
  "trace (updateAction i u r) = trace r"
  by (simp_all add: updateAction_def split: option.splits)

lemma actions_updateAction:
  "actions (updateAction i u r) j =
     (if j = i then map_option (\<lambda>a. spread a u) (actions r i) else actions r j)"
  by (simp add: updateAction_def split: option.splits)

lemma spread_status_update [simp]:
  "status (spread st (no_update\<lparr>new_status := Some s\<rparr>)) = s"
  "status (spread st (no_update\<lparr>new_status := Some s, new_error := e\<rparr>)) = s"
  "error (spread st (no_update\<lparr>new_status := Some s, new_error := Some m\<rparr>)) = Some m"
  "error (spread st (no_update\<lparr>new_status := Some s\<rparr>)) = error st"
  "executed (spread st (no_update\<lparr>new_status := Some s\<rparr>)) = executed st"
  "executed (spread st (no_update\<lparr>new_status := Some s, new_error := e\<rparr>)) = executed st"
  "action (spread st (no_update\<lparr>new_status := Some s\<rparr>)) = action st"
  "action (spread st (no_update\<lparr>new_status := Some s, new_error := e\<rparr>)) = action st"
  by (simp_all add: spread_def no_update_def)

lemma handlerSettles_found:
  "find (\<lambda>c. fst c = i) (suspended r) = Some c \<Longrightarrow>
   handlerSettles i sb r = resumeExecuteAction sb c (r\<lparr>suspended := remove1 c (suspended r)\<rparr>)"
  by (simp add: handlerSettles_def)

lemma actions_resumeExecuteAction:
  "actions (resumeExecuteAction sb (i, a, p) r) j =
     (if j = i then
        map_option (\<lambda>st. spread st
          (case snd (run_handler sb a) of
             Inr _ \<Rightarrow> no_update\<lparr>new_status := Some (if abortSignals r i then Aborted else Complete)\<rparr>
           | Inl _ \<Rightarrow> no_update\<lparr>new_status := Some Failed, new_error := Some ''Action failed''\<rparr>))
          (actions r i)
      else actions r j)"
  by (simp add: resumeExecuteAction_def actions_updateAction split: prod.splits sum.splits)

lemma trace_resumeExecuteAction:
  "trace (resumeExecuteAction sb (i, a, p) r) =
     trace r @ map Effect (fst (run_handler sb a)) @ [Ended i]"
  by (simp add: resumeExecuteAction_def split: prod.splits sum.splits)

section \<open>The handlers\<close>

lemma io_split:
  "snd (bind m k) = (case snd m of Inl e \<Rightarrow> Inl e | Inr x \<Rightarrow> snd (k x))"
  "fst (bind m k) = fst m @ (case snd m of Inl e \<Rightarrow> [] | Inr x \<Rightarrow> fst (k x))"
  "snd (try_catch m h) = (case snd m of Inl e \<Rightarrow> snd (h e) | Inr x \<Rightarrow> Inr x)"
  "fst (try_catch m h) = fst m @ (case snd m of Inl e \<Rightarrow> fst (h e) | Inr x \<Rightarrow> [])"
  by (simp_all add: bind_def try_catch_def split: prod.splits sum.splits)




lemma contract_failure:
  assumes "action a = ContractAction content lang filePath tgt opt dir"
      and "import_compiler sb = Inr ()" and "webcontainer sb = Inr ()"
      and "readFile sb filePath = Inr src"
      and "compile sb src lang filePath opt = Inr result" and "\<not> success result"
  shows "\<exists>e. snd (run_handler sb a) = Inl e"
    and "WriteFile (outputPath_of sb dir filePath @ ''.error.json'')
           (ErrorReport False filePath lang (or_empty (errors result))
              (or_empty (warnings result)) (now sb))
         \<in> set (fst (run_handler sb a))"
  using assms
  by (simp_all add: run_handler_def runContractAction_def await_def call_def emit_def io_split
                    only_if_def ret_def throw_def Let_def
               split: sum.splits)




text \<open>
  C5, as amended. A contract action whose compiler call answers \<^verbatim>\<open>success: false\<close> ends
  \<open>Failed\<close>; the error detail of its record is the fixed text \<^verbatim>\<open>Action failed\<close>; and the
  handler calls \<^verbatim>\<open>writeFile\<close> with the error report (\<^verbatim>\<open>success: false\<close>, the compiler's
  errors) at \<^verbatim>\<open>join(outputDir, basename(filePath, extname(filePath))) + ".error.json"\<close>, where
  the output directory is \<^verbatim>\<open>contracts/artifacts\<close> when the action names none.
\<close>

theorem contract_failure_recorded:
  assumes "find (\<lambda>c. fst c = i) (suspended r) = Some (i, a, p)"
      and "action a = ContractAction content lang filePath tgt opt dir"
      and "actions r i = Some st"
      and "import_compiler sb = Inr ()" and "webcontainer sb = Inr ()"
      and "readFile sb filePath = Inr src"
      and "compile sb src lang filePath opt = Inr result" and "\<not> success result"
  shows "map_option status (actions (handlerSettles i sb r) i) = Some Failed \<and>
         map_option error (actions (handlerSettles i sb r) i) = Some (Some ''Action failed'') \<and>
         Effect (WriteFile
                   (join sb (outputDir_of dir) (basename sb filePath (extname sb filePath))
                      @ ''.error.json'')
                   (ErrorReport False filePath lang (or_empty (errors result))
                      (or_empty (warnings result)) (now sb)))
           \<in> set (trace (handlerSettles i sb r)) \<and>
         outputDir_of None = ''contracts/artifacts''"
proof -
  obtain e where "snd (run_handler sb a) = Inl e"
    using contract_failure(1) [OF assms(2,4-8)] by blast
  moreover note contract_failure(2) [OF assms(2,4-8)]
  ultimately show ?thesis
    using assms(1,3)
    by (simp add: handlerSettles_found actions_resumeExecuteAction trace_resumeExecuteAction
                  outputPath_of_def outputDir_of_def)
qed

theorem contract_failure_recorded_witness:
  "map_option status
     (actions
        (handlerSettles ''c'' (sample_container 0 (Inr ()) (Inr ()) [''bad syntax''])
           (run [AddAction ''c'' (ContractAction [] Solidity ''C.sol'' None None None),
                 RunAction ''c'' (ContractAction ''contract C {'' Solidity ''C.sol'' None None None),
                 Microtask, Microtask] init)) ''c'') = Some Failed \<and>
   Effect (WriteFile ''contracts/artifacts/C.error.json''
             (ErrorReport False ''C.sol'' Solidity [''bad syntax''] [] ''2024-01-01T00:00:00.000Z''))
     \<in> set (trace
          (handlerSettles ''c'' (sample_container 0 (Inr ()) (Inr ()) [''bad syntax''])
             (run [AddAction ''c'' (ContractAction [] Solidity ''C.sol'' None None None),
                   RunAction ''c'' (ContractAction ''contract C {'' Solidity ''C.sol'' None None None),
                   Microtask, Microtask] init)))"
  using contract_failure_recorded
          [of "''c''"
              "run [AddAction ''c'' (ContractAction [] Solidity ''C.sol'' None None None),
                    RunAction ''c'' (ContractAction ''contract C {'' Solidity ''C.sol'' None None None),
                    Microtask, Microtask] init"
              _ _ "''contract C {''" Solidity "''C.sol''" None None None _
              "sample_container 0 (Inr ()) (Inr ()) [''bad syntax'']" "''contract C {''"]
  by (simp add: eval_defs handler_defs sample_container_def)

text \<open>
  The claim as stated fails: the compiler reports the errors \<^verbatim>\<open>["bad syntax"]\<close>, and the
  error detail of the record is \<^verbatim>\<open>Action failed\<close>, which carries none of them.
\<close>

theorem contract_error_detail_is_fixed:
  "compile (sample_container 0 (Inr ()) (Inr ()) [''bad syntax'']) ''contract C {'' Solidity ''C.sol'' None
     = Inr \<lparr>success = False, bytecode = None, abi = None, errors = Some [''bad syntax''],
            warnings = None, gasEstimates = None, metadata = None\<rparr> \<and>
   map_option error
     (actions
        (run [AddAction ''c'' (ContractAction [] Solidity ''C.sol'' None None None),
              RunAction ''c'' (ContractAction ''contract C {'' Solidity ''C.sol'' None None None),
              Microtask, Microtask,
              HandlerSettles ''c'' (sample_container 0 (Inr ()) (Inr ()) [''bad syntax''])] init) ''c'')
     = Some (Some ''Action failed'')"
  by (simp add: eval_defs handler_defs sample_container_def)




section \<open>The chain is an invariant\<close>

lemma inv_init: "inv [] init"
  unfolding inv_def shape_def
  apply (rule exI [of _ "[]"], rule exI [of _ "[]"])
  apply (simp add: store_def front_def idle_def init_def refs_of_def link_refs_def calls_def pairs_def)
  done

lemma link_refs_simps [simp]:
  "link_refs [] = []"
  "link_refs (l # ls) = link_then l # link_catch l # link_refs ls"
  "link_refs (xs @ ys) = link_refs xs @ link_refs ys"
  by (simp_all add: link_refs_def)

lemma refs_of_simps:
  "refs_of (xs @ ys) = refs_of xs @ link_refs ys"
  "set (refs_of ls) = insert 0 (set (link_refs ls))"
  by (simp_all add: refs_of_def)

lemma link_catch_in_refs: "l \<in> set ls \<Longrightarrow> link_catch l \<in> set (link_refs ls)"
  by (induction ls) auto

lemma link_then_in_refs: "l \<in> set ls \<Longrightarrow> link_then l \<in> set (link_refs ls)"
  by (induction ls) auto

lemma tail_catch_in_refs: "tail_catch c ls \<in> insert c (set (link_refs ls))"
  by (induction ls arbitrary: c) auto

lemma sr_reaction_mono:
  "sr_reaction X R n x \<Longrightarrow> X' \<subseteq> X \<Longrightarrow> n \<le> n' \<Longrightarrow> (\<forall>p\<in>R'. p \<in> R \<or> n \<le> p) \<Longrightarrow>
   sr_reaction X' R' n' x"
  unfolding sr_reaction_def by fastforce

lemma sr_job_mono:
  "sr_job X R n j \<Longrightarrow> X' \<subseteq> X \<Longrightarrow> n \<le> n' \<Longrightarrow> (\<forall>p\<in>R'. p \<in> R \<or> n \<le> p) \<Longrightarrow>
   sr_job X' R' n' j"
  unfolding sr_job_def using sr_reaction_mono by blast

lemma waiting_mono:
  "waiting r R n X c ls \<Longrightarrow> X' \<subseteq> X \<Longrightarrow> n \<le> n' \<Longrightarrow> (\<forall>p\<in>R'. p \<in> R \<or> n \<le> p) \<Longrightarrow>
   waiting r R' n' X' c ls"
proof (induction ls arbitrary: c X X')
  case Nil
  then show ?case by (auto intro: sr_reaction_mono)
next
  case (Cons l ls)
  from Cons.prems(1) obtain srs where
    srs: "reactions (promises r c) = srs @ [then_reaction (ExecuteAction (link_id l)) (link_then l)]"
         "\<forall>x\<in>set srs. sr_reaction X R n x"
    and rest: "state (promises r c) = None"
      "promises r (link_then l) = \<lparr>state = None, reactions = [catch_reaction LogActionFailed (link_catch l)]\<rparr>"
      "waiting r R n (insert (link_id l) X) (link_catch l) ls"
    by auto
  have "waiting r R' n' (insert (link_id l) X') (link_catch l) ls"
    using Cons.IH [OF rest(3) _ Cons.prems(3,4)] Cons.prems(2) by blast
  moreover have "\<forall>x\<in>set srs. sr_reaction X' R' n' x"
    using srs(2) Cons.prems(2-4) by (blast intro: sr_reaction_mono)
  ultimately show ?case using srs(1) rest(1,2) by auto
qed

lemma waiting_cong:
  "waiting r R n X c ls \<Longrightarrow> (\<forall>p\<in>insert c (set (link_refs ls)). promises r' p = promises r p) \<Longrightarrow>
   waiting r' R n X c ls"
  by (induction ls arbitrary: c X) auto

lemma waiting_pending: "waiting r R n X c ls \<Longrightarrow> state (promises r c) = None"
  by (cases ls) auto

lemma tail_catch_append [simp]: "tail_catch c (xs @ ys) = tail_catch (tail_catch c xs) ys"
  by (induction xs arbitrary: c) auto

lemma waiting_tail_pending:
  "waiting r R n X c ls \<Longrightarrow> state (promises r (tail_catch c ls)) = None"
  by (induction ls arbitrary: c X) auto

lemma waiting_add_sr:
  "waiting r R n X c ls \<Longrightarrow> distinct (c # link_refs ls) \<Longrightarrow>
   sr_reaction (X \<union> set (map link_id ls)) R n x \<Longrightarrow>
   promises r' = (promises r)(tail_catch c ls :=
              \<lparr>state = None, reactions = reactions (promises r (tail_catch c ls)) @ [x]\<rparr>) \<Longrightarrow>
   waiting r' R n X c ls"
proof (induction ls arbitrary: c X)
  case Nil
  then show ?case by auto
next
  case (Cons l ls)
  let ?cl = "tail_catch (link_catch l) ls"
  have "?cl \<in> insert (link_catch l) (set (link_refs ls))" by (rule tail_catch_in_refs)
  then have ne: "?cl \<noteq> c" "?cl \<noteq> link_then l" using Cons.prems(2) by auto
  have w: "waiting r' R n (insert (link_id l) X) (link_catch l) ls"
  proof (rule Cons.IH)
    show "waiting r R n (insert (link_id l) X) (link_catch l) ls" using Cons.prems(1) by simp
    show "distinct (link_catch l # link_refs ls)" using Cons.prems(2) by simp
    show "sr_reaction (insert (link_id l) X \<union> set (map link_id ls)) R n x"
      using Cons.prems(3) by simp
    show "promises r' = (promises r)(?cl := \<lparr>state = None, reactions = reactions (promises r ?cl) @ [x]\<rparr>)"
      using Cons.prems(4) by (simp only: tail_catch.simps)
  qed
  show ?case using Cons.prems(1,4) ne by (auto simp: w)
qed

lemma waiting_snoc:
  "waiting r R n X c ls \<Longrightarrow> distinct (c # link_refs ls) \<Longrightarrow>
   t \<notin> insert c (set (link_refs ls)) \<Longrightarrow> c' \<notin> insert c (set (link_refs ls)) \<Longrightarrow> t \<noteq> c' \<Longrightarrow>
   promises r' = (promises r)(tail_catch c ls :=
                 \<lparr>state = None,
                  reactions = reactions (promises r (tail_catch c ls)) @ [then_reaction (ExecuteAction a) t]\<rparr>,
               t := \<lparr>state = None, reactions = [catch_reaction LogActionFailed c']\<rparr>,
               c' := \<lparr>state = None, reactions = []\<rparr>) \<Longrightarrow>
   waiting r' R n X c (ls @ [Link a t c'])"
proof (induction ls arbitrary: c X)
  case Nil
  then show ?case by auto
next
  case (Cons l ls)
  let ?cl = "tail_catch (link_catch l) ls"
  have "?cl \<in> insert (link_catch l) (set (link_refs ls))" by (rule tail_catch_in_refs)
  then have ne: "?cl \<noteq> c" "?cl \<noteq> link_then l" using Cons.prems(2) by auto
  have w: "waiting r' R n (insert (link_id l) X) (link_catch l) (ls @ [Link a t c'])"
  proof (rule Cons.IH)
    show "waiting r R n (insert (link_id l) X) (link_catch l) ls" using Cons.prems(1) by simp
    show "distinct (link_catch l # link_refs ls)" using Cons.prems(2) by simp
    show "t \<notin> insert (link_catch l) (set (link_refs ls))" using Cons.prems(3) by simp
    show "c' \<notin> insert (link_catch l) (set (link_refs ls))" using Cons.prems(4) by simp
    show "t \<noteq> c'" by fact
    show "promises r' = (promises r)(?cl :=
                 \<lparr>state = None,
                  reactions = reactions (promises r ?cl) @ [then_reaction (ExecuteAction a) t]\<rparr>,
               t := \<lparr>state = None, reactions = [catch_reaction LogActionFailed c']\<rparr>,
               c' := \<lparr>state = None, reactions = []\<rparr>)"
      using Cons.prems(6) by (simp only: tail_catch.simps)
  qed
  show ?case using Cons.prems(1,3,4,6) ne by (auto simp: w)
qed

lemma tail_catch_cases: "tail_catch c ls = (if ls = [] then c else link_catch (last ls))"
  by (induction ls arbitrary: c) auto

lemma promise_then_pending:
  "state (promises r p) = None \<Longrightarrow> p \<noteq> next_promise r \<Longrightarrow>
   promise_then p cb r =
     (next_promise r,
      r\<lparr>promises := (promises r)
           (next_promise r := \<lparr>state = None, reactions = []\<rparr>,
            p := \<lparr>state = None, reactions = reactions (promises r p) @ [then_reaction cb (next_promise r)]\<rparr>),
        next_promise := Suc (next_promise r)\<rparr>)"
  by (simp add: promise_then_def new_promise_def register_def)

lemma promise_then_settled:
  "state (promises r p) = Some s \<Longrightarrow> p \<noteq> next_promise r \<Longrightarrow>
   promise_then p cb r =
     (next_promise r,
      r\<lparr>promises := (promises r)(next_promise r := \<lparr>state = None, reactions = []\<rparr>),
        next_promise := Suc (next_promise r),
        microtasks := microtasks r @ [(then_reaction cb (next_promise r), s)]\<rparr>)"
  by (simp add: promise_then_def new_promise_def register_def)

lemma store_current_settled:
  "store dn [] r \<Longrightarrow> promises r (currentExecutionPromise r) = \<lparr>state = Some Fulfilled, reactions = []\<rparr>"
  by (auto simp: store_def tail_catch_cases)

lemma store_current_ref:
  "store dn rest r \<Longrightarrow> currentExecutionPromise r \<in> set (refs_of (dn @ rest))"
  using tail_catch_in_refs [of 0 "dn @ rest"] by (simp add: store_def refs_of_def)

lemma store_fresh:
  "store dn rest r \<Longrightarrow> next_promise r \<notin> set (refs_of (dn @ rest))"
  by (auto simp: store_def)

lemma store_id_fresh:
  "store dn rest r \<Longrightarrow> actions r i = None \<Longrightarrow> i \<notin> set (map link_id (dn @ rest))"
  unfolding store_def by (metis option.distinct(1))

lemma store_id_fresh':
  "store dn rest r \<Longrightarrow> actions r i = Some st \<Longrightarrow> \<not> executed st \<Longrightarrow> i \<notin> set (map link_id (dn @ rest))"
  unfolding store_def by (metis option.inject)

lemma calls_append [simp]: "calls (xs @ ys) = calls xs @ calls ys"
  by (simp add: calls_def)

lemma calls_simps [simp]:
  "calls [] = []"
  "calls (Started i # t) = Started i # calls t"
  "calls (Ended i # t) = Ended i # calls t"
  "calls (Effect f # t) = calls t"
  "calls (map Effect fx) = []"
  by (simp_all add: calls_def)

lemma pairs_simps [simp]:
  "pairs [] = []"
  "pairs (l # ls) = Started (link_id l) # Ended (link_id l) # pairs ls"
  "pairs (xs @ ys) = pairs xs @ pairs ys"
  by (simp_all add: pairs_def)

lemma in_refs_of:
  "0 \<in> set (refs_of ls)"
  "l \<in> set ls \<Longrightarrow> link_then l \<in> set (refs_of ls)"
  "l \<in> set ls \<Longrightarrow> link_catch l \<in> set (refs_of ls)"
  by (simp_all add: refs_of_def link_then_in_refs link_catch_in_refs)

lemma store_bounds:
  assumes "store dn rest r"
  shows "0 < next_promise r \<and>
         (\<forall>l\<in>set (dn @ rest). link_then l < next_promise r \<and> link_catch l < next_promise r)"
  using assms in_refs_of(2,3) [of _ "dn @ rest"] in_refs_of(1) [of "dn @ rest"]
  unfolding store_def by blast

lemma front_idle:
  "front dn [] r \<longleftrightarrow>
     (\<forall>j\<in>set (microtasks r). sr_job (set (map link_id dn)) (set (refs_of dn)) (next_promise r) j) \<and>
     suspended r = [] \<and> calls (trace r) = pairs dn"
  by (simp add: front_def idle_def)

lemma front_active:
  "front dn (l # ls) r \<longleftrightarrow>
     waiting r (set (refs_of (dn @ l # ls))) (next_promise r) (insert (link_id l) (set (map link_id dn)))
       (link_catch l) ls \<and>
     (queued dn l ls r \<or> inflight dn l r \<or> catching dn l r)"
  by (simp add: front_def)

lemma store_frame:
  assumes "store dn rest r"
    and "next_promise r \<le> next_promise r'"
    and "\<forall>p. p \<notin> set (refs_of (dn @ rest)) \<longrightarrow> reactions (promises r' p) = []"
    and "\<forall>i. (\<exists>st. actions r' i = Some st \<and> executed st) \<longleftrightarrow> (\<exists>st. actions r i = Some st \<and> executed st)"
    and "\<forall>p\<in>set (refs_of dn). promises r' p = promises r p"
    and "currentExecutionPromise r' = currentExecutionPromise r"
  shows "store dn rest r'"
proof -
  have "promises r' 0 = promises r 0"
    using assms(5) in_refs_of(1) by blast
  moreover have "\<forall>l\<in>set dn. promises r' (link_then l) = promises r (link_then l) \<and>
                     promises r' (link_catch l) = promises r (link_catch l)"
    using assms(5) in_refs_of(2,3) by blast
  ultimately show ?thesis
    using assms(1-4,6) unfolding store_def by (simp; fastforce)
qed

lemma phase_frame:
  assumes "microtasks r' = microtasks r" and "suspended r' = suspended r"
    and "promises r' (link_then l) = promises r (link_then l)"
    and "calls (trace r') = calls (trace r)"
    and "next_promise r \<le> next_promise r'"
    and "\<forall>p\<in>set (refs_of (dn @ l # ls')). p \<in> set (refs_of (dn @ l # ls)) \<or> next_promise r \<le> p"
  shows "queued dn l ls r \<Longrightarrow> queued dn l ls' r'"
    and "inflight dn l r \<Longrightarrow> inflight dn l r'"
    and "catching dn l r \<Longrightarrow> catching dn l r'"
proof -
  assume "queued dn l ls r"
  then obtain js where
    js: "microtasks r = js @ [(then_reaction (ExecuteAction (link_id l)) (link_then l), Fulfilled)]"
        "\<forall>j\<in>set js. sr_job (set (map link_id dn)) (set (refs_of (dn @ l # ls))) (next_promise r) j"
    and more: "suspended r = []"
      "promises r (link_then l) = \<lparr>state = None, reactions = [catch_reaction LogActionFailed (link_catch l)]\<rparr>"
      "calls (trace r) = pairs dn"
    unfolding queued_def by blast
  have "\<forall>j\<in>set js. sr_job (set (map link_id dn)) (set (refs_of (dn @ l # ls'))) (next_promise r') j"
    using js(2) assms(5,6) by (blast intro: sr_job_mono)
  then show "queued dn l ls' r'"
    unfolding queued_def using js(1) more assms(1-4) by auto
next
  assume "inflight dn l r"
  then show "inflight dn l r'" unfolding inflight_def using assms(1-4) by simp
next
  assume "catching dn l r"
  then show "catching dn l r'" unfolding catching_def using assms(1-4) by simp
qed

text \<open>Registration.\<close>

lemma shape_addAction_idle:
  assumes "shape dn [] r" and "actions r i = None"
  shows "shape dn [] (addAction i a r)"
proof -
  let ?n = "next_promise r"
  let ?X = "set (map link_id dn)" and ?R = "set (refs_of dn)"
  have st: "store dn [] r" and fr: "front dn [] r" using assms(1) by (auto simp: shape_def)
  have cur: "promises r (currentExecutionPromise r) = \<lparr>state = Some Fulfilled, reactions = []\<rparr>"
    using st by (rule store_current_settled)
  have ne: "currentExecutionPromise r \<noteq> ?n"
    using store_current_ref [OF st] store_fresh [OF st] by auto
  have i: "i \<notin> ?X" using store_id_fresh [OF st assms(2)] by simp
  have eq: "addAction i a r =
      r\<lparr>actions := (actions r)(i \<mapsto> \<lparr>action = a, status = Pending, executed = False, error = None\<rparr>),
        abortSignals := (abortSignals r)(i := False),
        promises := (promises r)(?n := \<lparr>state = None, reactions = []\<rparr>),
        next_promise := Suc ?n,
        microtasks := microtasks r @ [(then_reaction (SetRunning i) ?n, Fulfilled)]\<rparr>"
    using assms(2) cur ne by (simp add: addAction_def promise_then_settled)
  have "store dn [] (addAction i a r)"
    unfolding eq
  proof (rule store_frame [OF st])
    show "\<forall>p. p \<notin> set (refs_of (dn @ [])) \<longrightarrow> reactions (promises (r\<lparr>actions := (actions r)(i \<mapsto> \<lparr>action = a, status = Pending, executed = False, error = None\<rparr>),
        abortSignals := (abortSignals r)(i := False),
        promises := (promises r)(?n := \<lparr>state = None, reactions = []\<rparr>),
        next_promise := Suc ?n,
        microtasks := microtasks r @ [(then_reaction (SetRunning i) ?n, Fulfilled)]\<rparr>) p) = []"
      using st by (auto simp: store_def)
  qed (use assms(2) store_fresh [OF st] in auto)
  moreover have "front dn [] (addAction i a r)"
  proof -
    have old: "\<forall>j\<in>set (microtasks r). sr_job ?X ?R (Suc ?n) j"
      using fr by (auto simp: front_idle intro: sr_job_mono)
    have new: "sr_job ?X ?R (Suc ?n) (then_reaction (SetRunning i) ?n, Fulfilled)"
      using i store_fresh [OF st] by (auto simp: sr_job_def sr_reaction_def)
    show ?thesis unfolding eq using fr old new by (simp add: front_idle)
  qed
  ultimately show ?thesis by (simp add: shape_def)
qed

lemma shape_addAction_active:
  assumes "shape dn (l # ls) r" and "actions r i = None"
  shows "shape dn (l # ls) (addAction i a r)"
proof -
  let ?n = "next_promise r"
  let ?X = "set (map link_id dn)" and ?R = "set (refs_of (dn @ l # ls))"
  let ?c = "currentExecutionPromise r"
  let ?x = "then_reaction (SetRunning i) ?n"
  have st: "store dn (l # ls) r" and fr: "front dn (l # ls) r" using assms(1) by (auto simp: shape_def)
  have w: "waiting r ?R ?n (insert (link_id l) ?X) (link_catch l) ls"
    and ph: "queued dn l ls r \<or> inflight dn l r \<or> catching dn l r"
    using fr by (auto simp: front_active)
  have c: "?c = tail_catch (link_catch l) ls" using st by (simp add: store_def)
  have cur: "state (promises r ?c) = None"
    unfolding c using w by (rule waiting_tail_pending)
  have nR: "?n \<notin> ?R" using store_fresh [OF st] .
  have ne: "?c \<noteq> ?n"
    using store_current_ref [OF st] nR by auto
  have i: "i \<notin> set (map link_id (dn @ l # ls))" using store_id_fresh [OF st assms(2)] .
  have eq: "addAction i a r =
      r\<lparr>actions := (actions r)(i \<mapsto> \<lparr>action = a, status = Pending, executed = False, error = None\<rparr>),
        abortSignals := (abortSignals r)(i := False),
        promises := (promises r)(?n := \<lparr>state = None, reactions = []\<rparr>,
                      ?c := \<lparr>state = None, reactions = reactions (promises r ?c) @ [?x]\<rparr>),
        next_promise := Suc ?n\<rparr>" (is "_ = ?r'")
    using assms(2) cur ne by (simp add: addAction_def promise_then_pending)
  have cin: "?c \<in> insert (link_catch l) (set (link_refs ls))"
    unfolding c by (rule tail_catch_in_refs)
  have dist: "distinct (refs_of (dn @ l # ls))" using st by (simp add: store_def)
  have cne: "?c \<noteq> link_then l" "?c \<notin> set (refs_of dn)"
    using cin dist by (auto simp: refs_of_def)
  have cR: "?c \<in> ?R" using store_current_ref [OF st] .
  have "store dn (l # ls) ?r'"
  proof (rule store_frame [OF st])
    show "\<forall>p. p \<notin> ?R \<longrightarrow> reactions (promises ?r' p) = []"
      using st cR by (auto simp: store_def)
    show "\<forall>i'. (\<exists>st. actions ?r' i' = Some st \<and> executed st) \<longleftrightarrow> (\<exists>st. actions r i' = Some st \<and> executed st)"
      using assms(2) by auto
    show "\<forall>p\<in>set (refs_of dn). promises ?r' p = promises r p"
      using cne nR by (auto simp: refs_of_simps)
  qed simp_all
  moreover have "front dn (l # ls) ?r'"
  proof -
    let ?r1 = "r\<lparr>promises := (promises r)(?n := \<lparr>state = None, reactions = []\<rparr>)\<rparr>"
    have w0: "waiting r ?R (Suc ?n) (insert (link_id l) ?X) (link_catch l) ls"
      using w by (rule waiting_mono) auto
    have w1: "waiting ?r1 ?R (Suc ?n) (insert (link_id l) ?X) (link_catch l) ls"
      by (rule waiting_cong [OF w0]) (use nR in \<open>auto simp: refs_of_simps\<close>)
    have sr: "sr_reaction (insert (link_id l) ?X \<union> set (map link_id ls)) ?R (Suc ?n) ?x"
      using i nR by (auto simp: sr_reaction_def)
    have w2: "waiting ?r' ?R (Suc ?n) (insert (link_id l) ?X) (link_catch l) ls"
    proof (rule waiting_add_sr [OF w1 _ sr])
      show "distinct (link_catch l # link_refs ls)"
        using dist by (simp add: refs_of_def)
      show "promises ?r' = (promises ?r1)(tail_catch (link_catch l) ls :=
              \<lparr>state = None, reactions = reactions (promises ?r1 (tail_catch (link_catch l) ls)) @ [?x]\<rparr>)"
        using ne by (simp add: c [symmetric])
    qed
    have t: "promises ?r' (link_then l) = promises r (link_then l)"
      using cne nR by (auto simp: refs_of_simps)
    have "queued dn l ls ?r' \<or> inflight dn l ?r' \<or> catching dn l ?r'"
      using ph phase_frame [where r' = ?r' and r = r and l = l and ls' = ls and ls = ls, OF _ _ t] by auto
    then show ?thesis using w2 by (simp add: front_active)
  qed
  ultimately show ?thesis by (simp add: shape_def eq)
qed

lemma promise_catch_pending:
  "state (promises r p) = None \<Longrightarrow> p \<noteq> next_promise r \<Longrightarrow>
   promise_catch p cb r =
     (next_promise r,
      r\<lparr>promises := (promises r)
           (next_promise r := \<lparr>state = None, reactions = []\<rparr>,
            p := \<lparr>state = None, reactions = reactions (promises r p) @ [catch_reaction cb (next_promise r)]\<rparr>),
        next_promise := Suc (next_promise r)\<rparr>)"
  by (simp add: promise_catch_def new_promise_def register_def)

lemma store_snoc:
  assumes "store dn rest r" and "i \<notin> set (map link_id (dn @ rest))"
    and "\<forall>j. (\<exists>st. actions r' j = Some st \<and> executed st) \<longleftrightarrow>
              (j = i \<or> (\<exists>st. actions r j = Some st \<and> executed st))"
    and "next_promise r' = Suc (Suc (next_promise r))"
    and "\<forall>p. p \<notin> set (refs_of (dn @ rest)) \<longrightarrow> p \<noteq> next_promise r \<longrightarrow> p \<noteq> Suc (next_promise r) \<longrightarrow>
             reactions (promises r' p) = []"
    and "\<forall>p\<in>set (refs_of dn). promises r' p = promises r p"
    and "currentExecutionPromise r' = Suc (next_promise r)"
  shows "store dn (rest @ [Link i (next_promise r) (Suc (next_promise r))]) r'"
proof -
  let ?n = "next_promise r"
  have b: "\<forall>p\<in>set (refs_of (dn @ rest)). p < ?n" using assms(1) by (simp add: store_def)
  have "promises r' 0 = promises r 0"
    using assms(6) in_refs_of(1) by blast
  moreover have "\<forall>l\<in>set dn. promises r' (link_then l) = promises r (link_then l) \<and>
                     promises r' (link_catch l) = promises r (link_catch l)"
    using assms(6) in_refs_of(2,3) by blast
  moreover have "distinct (refs_of ((dn @ rest) @ [Link i ?n (Suc ?n)]))"
  proof -
    have "distinct (refs_of (dn @ rest))" using assms(1) by (simp add: store_def)
    then have "distinct (refs_of (dn @ rest) @ [?n, Suc ?n])" using b by auto
    then show ?thesis unfolding refs_of_simps(1) by simp
  qed
  moreover have "\<forall>p\<in>set (refs_of ((dn @ rest) @ [Link i ?n (Suc ?n)])). p < Suc (Suc ?n)"
  proof -
    have "\<forall>p\<in>set (refs_of (dn @ rest) @ [?n, Suc ?n]). p < Suc (Suc ?n)"
      using b by (auto simp: less_Suc_eq)
    then show ?thesis unfolding refs_of_simps(1) by simp
  qed
  moreover have "\<forall>p. p \<notin> set (refs_of ((dn @ rest) @ [Link i ?n (Suc ?n)])) \<longrightarrow> reactions (promises r' p) = []"
  proof -
    have "\<forall>p. p \<notin> set (refs_of (dn @ rest) @ [?n, Suc ?n]) \<longrightarrow> reactions (promises r' p) = []"
      using assms(5) by auto
    then show ?thesis unfolding refs_of_simps(1) by simp
  qed
  moreover have "distinct (map link_id ((dn @ rest) @ [Link i ?n (Suc ?n)]))"
  proof -
    have "distinct (map link_id (dn @ rest))" using assms(1) by (simp add: store_def)
    then show ?thesis using assms(2) by simp
  qed
  moreover have "\<forall>j. j \<in> set (map link_id ((dn @ rest) @ [Link i ?n (Suc ?n)])) \<longleftrightarrow>
                    (\<exists>st. actions r' j = Some st \<and> executed st)"
  proof -
    have "\<forall>j. j \<in> set (map link_id (dn @ rest)) \<longleftrightarrow> (\<exists>st. actions r j = Some st \<and> executed st)"
      using assms(1) by (simp add: store_def)
    then show ?thesis using assms(3) by auto
  qed
  ultimately show ?thesis
    using assms(1,4,7) unfolding store_def by simp
qed

lemma runAction_unfold:
  assumes "actions r i = Some a0" and "\<not> executed a0"
  shows "runAction i a r =
           (let r1 = updateAction i
                        ((as_update a0)\<lparr>new_action := Some (spread_action (action a0) a),
                                        new_executed := Some True\<rparr>) r
            in case promise_then (currentExecutionPromise r) (ExecuteAction i) r1 of
                 (t, r2) \<Rightarrow>
                   (case promise_catch t LogActionFailed r2 of
                      (c, r3) \<Rightarrow> Inr (r3\<lparr>currentExecutionPromise := c\<rparr>)))"
  using assms by (simp add: runAction_def)

lemma shape_runAction_idle:
  assumes "shape dn [] r" and "actions r i = Some a0" and "\<not> executed a0"
    and "runAction i a r = Inr r'"
  shows "shape dn [Link i (next_promise r) (Suc (next_promise r))] r'"
proof -
  let ?n = "next_promise r"
  let ?X = "set (map link_id dn)" and ?R = "set (refs_of dn)"
  let ?l = "Link i ?n (Suc ?n)"
  let ?r1 = "updateAction i ((as_update a0)\<lparr>new_action := Some (spread_action (action a0) a),
                                        new_executed := Some True\<rparr>) r"
  have st: "store dn [] r" and fr: "front dn [] r" using assms(1) by (auto simp: shape_def)
  have cur: "promises r (currentExecutionPromise r) = \<lparr>state = Some Fulfilled, reactions = []\<rparr>"
    using st by (rule store_current_settled)
  have nR: "?n \<notin> set (refs_of dn)" using store_fresh [OF st] by simp
  have ne: "currentExecutionPromise r \<noteq> ?n"
    using store_current_ref [OF st] nR by auto
  have i: "i \<notin> ?X" using store_id_fresh' [OF st assms(2,3)] by simp
  have r1: "?r1 = r\<lparr>actions := (actions r)(i \<mapsto> spread a0 ((as_update a0)\<lparr>new_action := Some (spread_action (action a0) a),
                                        new_executed := Some True\<rparr>))\<rparr>"
    using assms(2) by (simp add: updateAction_def)
  have eq: "r' = r
      \<lparr>actions := (actions r)(i \<mapsto> spread a0 ((as_update a0)\<lparr>new_action := Some (spread_action (action a0) a),
                                        new_executed := Some True\<rparr>)),
        promises := (promises r)(?n := \<lparr>state = None, reactions = []\<rparr>, Suc ?n := \<lparr>state = None, reactions = []\<rparr>,
           ?n := \<lparr>state = None, reactions = [catch_reaction LogActionFailed (Suc ?n)]\<rparr>),
        next_promise := Suc (Suc ?n),
        microtasks := microtasks r @ [(then_reaction (ExecuteAction i) ?n, Fulfilled)],
        currentExecutionPromise := Suc ?n\<rparr>"
    using assms(4) cur ne unfolding runAction_unfold [OF assms(2,3)] r1
    by (auto simp: Let_def promise_then_settled promise_catch_pending)
  have "store dn ([] @ [?l]) r'"
  proof (rule store_snoc [OF st])
    show "\<forall>j. (\<exists>st. actions r' j = Some st \<and> executed st) \<longleftrightarrow>
              (j = i \<or> (\<exists>st. actions r j = Some st \<and> executed st))"
      unfolding eq using assms(2) by (auto simp: spread_def as_update_def)
    show "\<forall>p. p \<notin> set (refs_of (dn @ [])) \<longrightarrow> p \<noteq> ?n \<longrightarrow> p \<noteq> Suc ?n \<longrightarrow> reactions (promises r' p) = []"
      unfolding eq using st by (simp add: store_def)
    show "\<forall>p\<in>set (refs_of dn). promises r' p = promises r p"
      unfolding eq using nR st by (auto simp: store_def)
  qed (use i in \<open>simp_all add: eq\<close>)
  moreover have "front dn [?l] r'"
  proof -
    have old: "\<forall>j\<in>set (microtasks r). sr_job ?X (set (refs_of (dn @ [?l]))) (Suc (Suc ?n)) j"
    proof
      fix j assume "j \<in> set (microtasks r)"
      then have "sr_job ?X ?R ?n j" using fr by (simp add: front_idle)
      then show "sr_job ?X (set (refs_of (dn @ [?l]))) (Suc (Suc ?n)) j"
        by (rule sr_job_mono) (auto simp: refs_of_simps)
    qed
    have "queued dn ?l [] r'"
      unfolding queued_def eq using fr old by (auto simp: front_idle)
    moreover have "waiting r' (set (refs_of (dn @ [?l]))) (next_promise r') (insert i ?X) (Suc ?n) []"
      unfolding eq by simp
    ultimately show ?thesis by (simp add: front_active)
  qed
  ultimately show ?thesis by (simp add: shape_def)
qed

lemma shape_runAction_active:
  assumes "shape dn (l # ls) r" and "actions r i = Some a0" and "\<not> executed a0"
    and "runAction i a r = Inr r'"
  shows "shape dn ((l # ls) @ [Link i (next_promise r) (Suc (next_promise r))]) r'"
proof -
  let ?n = "next_promise r"
  let ?X = "set (map link_id dn)" and ?R = "set (refs_of (dn @ l # ls))"
  let ?k = "Link i ?n (Suc ?n)"
  let ?R' = "set (refs_of (dn @ l # ls @ [?k]))"
  let ?c = "currentExecutionPromise r"
  let ?u = "(as_update a0)\<lparr>new_action := Some (spread_action (action a0) a), new_executed := Some True\<rparr>"
  have st: "store dn (l # ls) r" and fr: "front dn (l # ls) r" using assms(1) by (auto simp: shape_def)
  have w: "waiting r ?R ?n (insert (link_id l) ?X) (link_catch l) ls"
    and ph: "queued dn l ls r \<or> inflight dn l r \<or> catching dn l r"
    using fr by (auto simp: front_active)
  have c: "?c = tail_catch (link_catch l) ls" using st by (simp add: store_def)
  have cur: "state (promises r ?c) = None"
    unfolding c using w by (rule waiting_tail_pending)
  have nR: "?n \<notin> ?R" using store_fresh [OF st] .
  have snR: "Suc ?n \<notin> ?R" using st by (auto simp: store_def)
  have cR: "?c \<in> ?R" using store_current_ref [OF st] .
  have ne: "?c \<noteq> ?n" "?c \<noteq> Suc ?n" using cR nR snR by auto
  have i: "i \<notin> set (map link_id (dn @ l # ls))" using store_id_fresh' [OF st assms(2,3)] .
  have r1: "updateAction i ?u r = r\<lparr>actions := (actions r)(i \<mapsto> spread a0 ?u)\<rparr>"
    using assms(2) by (simp add: updateAction_def)
  have eq: "r' = r
      \<lparr>actions := (actions r)(i \<mapsto> spread a0 ?u),
        promises := (promises r)
          (?n := \<lparr>state = None, reactions = []\<rparr>,
           ?c := \<lparr>state = None, reactions = reactions (promises r ?c) @ [then_reaction (ExecuteAction i) ?n]\<rparr>,
           Suc ?n := \<lparr>state = None, reactions = []\<rparr>,
           ?n := \<lparr>state = None, reactions = [catch_reaction LogActionFailed (Suc ?n)]\<rparr>),
        next_promise := Suc (Suc ?n),
        currentExecutionPromise := Suc ?n\<rparr>"
    using assms(4) cur ne unfolding runAction_unfold [OF assms(2,3)] r1
    by (auto simp: Let_def promise_then_pending promise_catch_pending)
  have cin: "?c \<in> insert (link_catch l) (set (link_refs ls))"
    unfolding c by (rule tail_catch_in_refs)
  have dist: "distinct (refs_of (dn @ l # ls))" using st by (simp add: store_def)
  have cne: "?c \<noteq> link_then l" "?c \<notin> set (refs_of dn)"
    using cin dist by (auto simp: refs_of_def)
  have "store dn ((l # ls) @ [?k]) r'"
  proof (rule store_snoc [OF st])
    show "\<forall>j. (\<exists>st. actions r' j = Some st \<and> executed st) \<longleftrightarrow>
              (j = i \<or> (\<exists>st. actions r j = Some st \<and> executed st))"
      unfolding eq using assms(2) by (auto simp: spread_def as_update_def)
    show "\<forall>p. p \<notin> ?R \<longrightarrow> p \<noteq> ?n \<longrightarrow> p \<noteq> Suc ?n \<longrightarrow> reactions (promises r' p) = []"
      unfolding eq using st cR by (auto simp: store_def)
    show "\<forall>p\<in>set (refs_of dn). promises r' p = promises r p"
      unfolding eq using nR snR cne by (auto simp: refs_of_simps)
  qed (use i in \<open>simp_all add: eq\<close>)
  moreover have "front dn (l # ls @ [?k]) r'"
  proof -
    have mono: "\<forall>p\<in>?R'. p \<in> ?R \<or> ?n \<le> p" by (auto simp: refs_of_simps)
    have w0: "waiting r ?R' (Suc (Suc ?n)) (insert (link_id l) ?X) (link_catch l) ls"
      using w _ _ mono by (rule waiting_mono) auto
    have w2: "waiting r' ?R' (Suc (Suc ?n)) (insert (link_id l) ?X) (link_catch l) (ls @ [?k])"
    proof (rule waiting_snoc [OF w0])
      show "distinct (link_catch l # link_refs ls)"
        using dist by (simp add: refs_of_def)
      show "?n \<notin> insert (link_catch l) (set (link_refs ls))"
        using nR by (simp add: refs_of_simps)
      show "Suc ?n \<notin> insert (link_catch l) (set (link_refs ls))"
        using snR by (simp add: refs_of_simps)
      show "promises r' = (promises r)
             (tail_catch (link_catch l) ls :=
                \<lparr>state = None,
                 reactions = reactions (promises r (tail_catch (link_catch l) ls)) @
                             [then_reaction (ExecuteAction i) ?n]\<rparr>,
              ?n := \<lparr>state = None, reactions = [catch_reaction LogActionFailed (Suc ?n)]\<rparr>,
              Suc ?n := \<lparr>state = None, reactions = []\<rparr>)"
        unfolding eq using ne by (auto simp: c [symmetric] fun_eq_iff)
    qed simp
    have t: "promises r' (link_then l) = promises r (link_then l)"
      unfolding eq using cne nR snR by (auto simp: refs_of_simps)
    have "queued dn l (ls @ [?k]) r' \<or> inflight dn l r' \<or> catching dn l r'"
      using ph phase_frame [where r' = r' and r = r and l = l and ls' = "ls @ [?k]" and ls = ls, OF _ _ t _ _ mono]
      by (auto simp: eq)
    then show ?thesis using w2 by (simp add: front_active eq)
  qed
  ultimately show ?thesis by (simp add: shape_def)
qed

lemma front_frame:
  assumes "front dn rest r"
    and "\<forall>p\<in>set (refs_of (dn @ rest)). promises r' p = promises r p"
    and "next_promise r' = next_promise r"
    and "microtasks r' = microtasks r" and "suspended r' = suspended r"
    and "calls (trace r') = calls (trace r)"
  shows "front dn rest r'"
proof (cases rest)
  case Nil
  then show ?thesis using assms by (simp add: front_idle)
next
  case (Cons l ls)
  have w: "waiting r (set (refs_of (dn @ l # ls))) (next_promise r)
             (insert (link_id l) (set (map link_id dn))) (link_catch l) ls"
    and ph: "queued dn l ls r \<or> inflight dn l r \<or> catching dn l r"
    using assms(1) unfolding Cons by (auto simp: front_active)
  have "waiting r' (set (refs_of (dn @ l # ls))) (next_promise r)
             (insert (link_id l) (set (map link_id dn))) (link_catch l) ls"
    using w by (rule waiting_cong) (use assms(2) in \<open>auto simp: Cons refs_of_simps\<close>)
  moreover have "promises r' (link_then l) = promises r (link_then l)"
    using assms(2) by (simp add: Cons refs_of_simps)
  then have "queued dn l ls r' \<or> inflight dn l r' \<or> catching dn l r'"
    using ph phase_frame [where r' = r' and r = r and l = l and ls' = ls and ls = ls] assms(3-6)
    by auto
  ultimately show ?thesis unfolding Cons by (simp add: front_active assms(3))
qed

lemma shape_frame:
  assumes "shape dn rest r"
    and "\<forall>p\<in>set (refs_of (dn @ rest)). promises r' p = promises r p"
    and "\<forall>p. p \<notin> set (refs_of (dn @ rest)) \<longrightarrow> reactions (promises r' p) = []"
    and "next_promise r' = next_promise r"
    and "microtasks r' = microtasks r" and "suspended r' = suspended r"
    and "calls (trace r') = calls (trace r)"
    and "currentExecutionPromise r' = currentExecutionPromise r"
    and "\<forall>i. (\<exists>st. actions r' i = Some st \<and> executed st) \<longleftrightarrow> (\<exists>st. actions r i = Some st \<and> executed st)"
  shows "shape dn rest r'"
proof -
  have st: "store dn rest r" and fr: "front dn rest r" using assms(1) by (auto simp: shape_def)
  have "store dn rest r'"
  proof (rule store_frame [OF st])
    show "\<forall>p\<in>set (refs_of dn). promises r' p = promises r p"
      using assms(2) by (simp add: refs_of_simps)
  qed (simp_all add: assms)
  moreover have "front dn rest r'"
    using fr assms(2,4-7) by (rule front_frame)
  ultimately show ?thesis by (simp add: shape_def)
qed

lemma shape_junk:
  "shape dn rest r \<Longrightarrow> p \<notin> set (refs_of (dn @ rest)) \<Longrightarrow> reactions (promises r p) = []"
  by (simp add: shape_def store_def)

lemma shape_updateAction_status:
  assumes "shape dn rest r"
  shows "shape dn rest (updateAction i (no_update\<lparr>new_status := Some s\<rparr>) r)"
  by (rule shape_frame [OF assms]) (auto simp: actions_updateAction shape_junk [OF assms])

lemma shape_updateAction_failed:
  assumes "shape dn rest r"
  shows "shape dn rest (updateAction i (no_update\<lparr>new_status := Some s, new_error := e\<rparr>) r)"
  by (rule shape_frame [OF assms]) (auto simp: actions_updateAction shape_junk [OF assms])

lemma shape_abort:
  assumes "shape dn rest r"
  shows "shape dn rest (abort i r)"
proof -
  have "shape dn rest (r\<lparr>abortSignals := (abortSignals r)(i := True)\<rparr>)"
    by (rule shape_frame [OF assms]) (simp_all add: shape_junk [OF assms])
  then show ?thesis unfolding abort_def by (rule shape_updateAction_status)
qed

lemma shape_settle_junk:
  assumes "shape dn rest r" and "d \<notin> set (refs_of (dn @ rest))"
  shows "shape dn rest (settle d s r)"
proof (rule shape_frame [OF assms(1)])
  have d: "reactions (promises r d) = []" using assms by (rule shape_junk)
  show "\<forall>p\<in>set (refs_of (dn @ rest)). promises (settle d s r) p = promises r p"
    using assms(2) by (auto simp: settle_def split: option.splits)
  show "\<forall>p. p \<notin> set (refs_of (dn @ rest)) \<longrightarrow> reactions (promises (settle d s r) p) = []"
    using shape_junk [OF assms(1)] by (auto simp: settle_def split: option.splits)
  show "microtasks (settle d s r) = microtasks r"
    using d by (simp add: settle_def split: option.splits)
qed simp_all

lemma run_sr_job:
  "run_job (then_reaction (SetRunning i) d, Fulfilled) r =
     settle d Fulfilled (updateAction i (no_update\<lparr>new_status := Some Running\<rparr>) r)"
  by (simp add: run_job_def run_callback_def then_reaction_def)

lemma shape_run_sr_job:
  assumes "shape dn rest r" and "sr_job X (set (refs_of (dn @ rest))) n j"
  shows "shape dn rest (run_job j r)"
proof -
  obtain i d where j: "j = (then_reaction (SetRunning i) d, Fulfilled)"
    and d: "d \<notin> set (refs_of (dn @ rest))"
    using assms(2) by (auto simp: sr_job_def sr_reaction_def)
  show ?thesis unfolding j run_sr_job
    by (rule shape_settle_junk [OF shape_updateAction_status [OF assms(1)] d])
qed

lemma shape_pop_idle:
  assumes "shape dn [] r" and "microtasks r = j # js"
  shows "shape dn [] (r\<lparr>microtasks := js\<rparr>)"
  using assms by (simp add: shape_def store_def front_idle)

lemma shape_microtask_idle:
  assumes "shape dn [] r"
  shows "shape dn [] (microtask r)"
proof (cases "microtasks r")
  case Nil
  then show ?thesis using assms by (simp add: microtask_def)
next
  case (Cons j js)
  have "sr_job (set (map link_id dn)) (set (refs_of (dn @ []))) (next_promise r) j"
    using assms Cons by (simp add: shape_def front_idle)
  then have "shape dn [] (run_job j (r\<lparr>microtasks := js\<rparr>))"
    by (rule shape_run_sr_job [OF shape_pop_idle [OF assms Cons]])
  then show ?thesis using Cons by (simp add: microtask_def)
qed

lemma shape_pop_queued:
  assumes "shape dn (l # ls) r" and "microtasks r = j # js @ [e]"
    and "queued dn l ls r"
  shows "shape dn (l # ls) (r\<lparr>microtasks := js @ [e]\<rparr>)"
    and "sr_job (set (map link_id dn)) (set (refs_of (dn @ l # ls))) (next_promise r) j"
proof -
  have st: "store dn (l # ls) r" and fr: "front dn (l # ls) r" using assms(1) by (auto simp: shape_def)
  have w: "waiting r (set (refs_of (dn @ l # ls))) (next_promise r)
             (insert (link_id l) (set (map link_id dn))) (link_catch l) ls"
    using fr by (simp add: front_active)
  obtain js0 where
    js0: "microtasks r = js0 @ [(then_reaction (ExecuteAction (link_id l)) (link_then l), Fulfilled)]"
        "\<forall>j\<in>set js0. sr_job (set (map link_id dn)) (set (refs_of (dn @ l # ls))) (next_promise r) j"
    and more: "suspended r = []"
      "promises r (link_then l) = \<lparr>state = None, reactions = [catch_reaction LogActionFailed (link_catch l)]\<rparr>"
      "calls (trace r) = pairs dn"
    using assms(3) unfolding queued_def by blast
  have e: "js0 = j # js" "e = (then_reaction (ExecuteAction (link_id l)) (link_then l), Fulfilled)"
    using js0(1) assms(2) by (metis append_Cons butlast_snoc last_snoc)+
  show "sr_job (set (map link_id dn)) (set (refs_of (dn @ l # ls))) (next_promise r) j"
    using js0(2) e by simp
  have "queued dn l ls (r\<lparr>microtasks := js @ [e]\<rparr>)"
    unfolding queued_def using js0(2) more e by simp
  moreover have "waiting (r\<lparr>microtasks := js @ [e]\<rparr>) (set (refs_of (dn @ l # ls))) (next_promise r)
             (insert (link_id l) (set (map link_id dn))) (link_catch l) ls"
    using w by (rule waiting_cong) simp
  ultimately have "front dn (l # ls) (r\<lparr>microtasks := js @ [e]\<rparr>)"
    by (simp add: front_active)
  moreover have "store dn (l # ls) (r\<lparr>microtasks := js @ [e]\<rparr>)"
    using st by (simp add: store_def)
  ultimately show "shape dn (l # ls) (r\<lparr>microtasks := js @ [e]\<rparr>)"
    by (simp add: shape_def)
qed

lemma shape_start:
  assumes "shape dn (l # ls) r" and "queued dn l ls r" and "microtasks r = [e]"
  shows "shape dn (l # ls) (microtask r)" and "inflight dn l (microtask r)"
proof -
  let ?a = "link_id l" and ?t = "link_then l"
  have st: "store dn (l # ls) r" and fr: "front dn (l # ls) r" using assms(1) by (auto simp: shape_def)
  have w: "waiting r (set (refs_of (dn @ l # ls))) (next_promise r)
             (insert ?a (set (map link_id dn))) (link_catch l) ls"
    using fr by (simp add: front_active)
  obtain js0 where
    js0: "microtasks r = js0 @ [(then_reaction (ExecuteAction ?a) ?t, Fulfilled)]"
    and more: "suspended r = []"
      "promises r ?t = \<lparr>state = None, reactions = [catch_reaction LogActionFailed (link_catch l)]\<rparr>"
      "calls (trace r) = pairs dn"
    using assms(2) unfolding queued_def by blast
  have e: "e = (then_reaction (ExecuteAction ?a) ?t, Fulfilled)"
    using js0 assms(3) by simp
  obtain st0 where st0: "actions r ?a = Some st0"
    using st unfolding store_def by (metis append_Cons in_set_conv_decomp list.simps(9) map_append)
  let ?r1 = "updateAction ?a (no_update\<lparr>new_status := Some Running\<rparr>) (r\<lparr>microtasks := []\<rparr>)"
  have eq: "microtask r = ?r1\<lparr>suspended := [(?a, st0, ?t)], trace := trace r @ [Started ?a]\<rparr>"
    using assms(3) st0 more(1)
    by (simp add: microtask_def e run_job_def then_reaction_def run_callback_def executeAction_def)
  have sh: "shape dn (l # ls) (microtask r)"
  proof -
    have "store dn (l # ls) (microtask r)"
    proof (rule store_frame [OF st])
      show "\<forall>p. p \<notin> set (refs_of (dn @ l # ls)) \<longrightarrow> reactions (promises (microtask r) p) = []"
        using st by (simp add: eq store_def)
    qed (auto simp: eq actions_updateAction)
    moreover have "waiting (microtask r) (set (refs_of (dn @ l # ls))) (next_promise r)
             (insert ?a (set (map link_id dn))) (link_catch l) ls"
      using w by (rule waiting_cong) (simp add: eq)
    moreover have "inflight dn l (microtask r)"
      unfolding inflight_def using more by (simp add: eq)
    ultimately show ?thesis by (simp add: shape_def front_active eq)
  qed
  show "shape dn (l # ls) (microtask r)" by (rule sh)
  show "inflight dn l (microtask r)" unfolding inflight_def using more by (simp add: eq)
qed

lemma run_catch_job:
  "\<exists>fx. run_job (catch_reaction LogActionFailed c, s) r =
         settle c Fulfilled (r\<lparr>trace := trace r @ map Effect fx\<rparr>)"
proof (cases s)
  case Fulfilled
  then have "run_job (catch_reaction LogActionFailed c, s) r =
         settle c Fulfilled (r\<lparr>trace := trace r @ map Effect []\<rparr>)"
    by (simp add: run_job_def catch_reaction_def)
  then show ?thesis by blast
next
  case Rejected
  then have "run_job (catch_reaction LogActionFailed c, s) r =
         settle c Fulfilled (r\<lparr>trace := trace r @ map Effect [ConsoleError ''Action failed:'']\<rparr>)"
    by (simp add: run_job_def catch_reaction_def run_callback_def)
  then show ?thesis by blast
qed

lemma store_advance:
  assumes "store dn (l # ls) r"
    and "promises r' = (promises r)(link_catch l := \<lparr>state = Some Fulfilled, reactions = []\<rparr>)"
    and "state (promises r (link_then l)) \<noteq> None" and "reactions (promises r (link_then l)) = []"
    and "next_promise r' = next_promise r" and "actions r' = actions r"
    and "currentExecutionPromise r' = currentExecutionPromise r"
  shows "store (dn @ [l]) ls r'"
proof -
  have dist: "distinct (refs_of (dn @ l # ls))" using assms(1) by (simp add: store_def)
  have c: "link_catch l \<notin> set (refs_of dn)" "link_catch l \<noteq> link_then l"
    using dist by (auto simp: refs_of_def)
  have old: "promises r 0 = \<lparr>state = Some Fulfilled, reactions = []\<rparr>"
    "\<forall>k\<in>set dn. state (promises r (link_then k)) \<noteq> None \<and> reactions (promises r (link_then k)) = [] \<and>
                 promises r (link_catch k) = \<lparr>state = Some Fulfilled, reactions = []\<rparr>"
    using assms(1) by (simp_all add: store_def)
  have same: "\<forall>p\<in>set (refs_of dn). promises r' p = promises r p"
    using c by (auto simp: assms(2))
  have "promises r' 0 = \<lparr>state = Some Fulfilled, reactions = []\<rparr>"
    using old(1) same in_refs_of(1) by metis
  moreover have "\<forall>k\<in>set (dn @ [l]). state (promises r' (link_then k)) \<noteq> None \<and>
                 reactions (promises r' (link_then k)) = [] \<and>
                 promises r' (link_catch k) = \<lparr>state = Some Fulfilled, reactions = []\<rparr>"
  proof
    fix k assume "k \<in> set (dn @ [l])"
    then consider "k \<in> set dn" | "k = l" by auto
    then show "state (promises r' (link_then k)) \<noteq> None \<and>
                 reactions (promises r' (link_then k)) = [] \<and>
                 promises r' (link_catch k) = \<lparr>state = Some Fulfilled, reactions = []\<rparr>"
    proof cases
      case 1
      then show ?thesis using old(2) same in_refs_of(2,3) [OF 1] by metis
    next
      case 2
      then show ?thesis using assms(3,4) c(2) by (simp add: assms(2))
    qed
  qed
  moreover have "\<forall>p. p \<notin> set (refs_of (dn @ l # ls)) \<longrightarrow> reactions (promises r' p) = []"
    using assms(1) by (auto simp: store_def assms(2))
  ultimately show ?thesis
    using assms(1,5-7) unfolding store_def by simp
qed

lemma waiting_Nil_jobs:
  assumes "waiting r R n X c []"
  shows "\<forall>j\<in>set (map (\<lambda>x. (x, Fulfilled)) (reactions (promises r c))). sr_job X R n j"
  using assms by (auto simp: sr_job_def)

lemma shape_advance:
  assumes "shape dn (l # ls) r" and "catching dn l r"
  shows "shape (dn @ [l]) ls (microtask r)"
proof -
  let ?a = "link_id l" and ?t = "link_then l" and ?c = "link_catch l"
  let ?X = "set (map link_id dn)" and ?R = "set (refs_of (dn @ l # ls))"
  have st: "store dn (l # ls) r" and fr: "front dn (l # ls) r" using assms(1) by (auto simp: shape_def)
  have w: "waiting r ?R (next_promise r) (insert ?a ?X) ?c ls"
    using fr by (simp add: front_active)
  obtain s where
    s: "microtasks r = [(catch_reaction LogActionFailed ?c, s)]"
       "promises r ?t = \<lparr>state = Some s, reactions = []\<rparr>"
    and more: "suspended r = []" "calls (trace r) = pairs dn @ [Started ?a, Ended ?a]"
    using assms(2) unfolding catching_def by blast
  obtain fx where
    fx: "run_job (catch_reaction LogActionFailed ?c, s) (r\<lparr>microtasks := []\<rparr>) =
           settle ?c Fulfilled (r\<lparr>microtasks := [], trace := trace r @ map Effect fx\<rparr>)"
    using run_catch_job [of ?c s "r\<lparr>microtasks := []\<rparr>"] by auto
  have pend: "state (promises r ?c) = None" using w by (rule waiting_pending)
  have eq: "microtask r =
      r\<lparr>promises := (promises r)(?c := \<lparr>state = Some Fulfilled, reactions = []\<rparr>),
        microtasks := map (\<lambda>x. (x, Fulfilled)) (reactions (promises r ?c)),
        trace := trace r @ map Effect fx\<rparr>" (is "_ = ?r'")
    using s(1) pend by (simp add: microtask_def fx settle_def)
  have dist: "distinct (refs_of (dn @ l # ls))" using st by (simp add: store_def)
  have "store (dn @ [l]) ls ?r'"
    by (rule store_advance [OF st]) (simp_all add: s(2))
  moreover have "front (dn @ [l]) ls ?r'"
  proof (cases ls)
    case Nil
    have "\<forall>j\<in>set (microtasks ?r'). sr_job (insert ?a ?X) ?R (next_promise r) j"
      using waiting_Nil_jobs [OF w [unfolded Nil]] by (simp add: Nil)
    then show ?thesis using more by (simp add: Nil front_idle)
  next
    case (Cons l' ls')
    obtain srs where
      srs: "reactions (promises r ?c) = srs @ [then_reaction (ExecuteAction (link_id l')) (link_then l')]"
           "\<forall>x\<in>set srs. sr_reaction (insert ?a ?X) ?R (next_promise r) x"
      and t': "promises r (link_then l') =
                 \<lparr>state = None, reactions = [catch_reaction LogActionFailed (link_catch l')]\<rparr>"
      and w': "waiting r ?R (next_promise r) (insert (link_id l') (insert ?a ?X)) (link_catch l') ls'"
      using w unfolding Cons by auto
    have cne: "?c \<noteq> link_then l'" "?c \<notin> insert (link_catch l') (set (link_refs ls'))"
      using dist unfolding Cons by (auto simp: refs_of_simps)
    have "waiting ?r' ?R (next_promise r) (insert (link_id l') (insert ?a ?X)) (link_catch l') ls'"
      using w' by (rule waiting_cong) (use cne in auto)
    moreover have "queued (dn @ [l]) l' ls' ?r'"
      unfolding queued_def using srs t' cne more by (auto simp: sr_job_def Cons)
    ultimately show ?thesis by (simp add: Cons front_active)
  qed
  ultimately show ?thesis by (simp add: shape_def eq)
qed

lemma shape_microtask:
  assumes "shape dn rest r"
  shows "\<exists>dn' rest'. dn' @ rest' = dn @ rest \<and> shape dn' rest' (microtask r)"
proof (cases rest)
  case Nil
  then show ?thesis using shape_microtask_idle assms by blast
next
  case (Cons l ls)
  have fr: "front dn (l # ls) r" using assms by (simp add: shape_def Cons)
  then consider "queued dn l ls r" | "inflight dn l r" | "catching dn l r"
    by (auto simp: front_active)
  then show ?thesis
  proof cases
    case 1
    then obtain js0 where
       js0: "microtasks r = js0 @ [(then_reaction (ExecuteAction (link_id l)) (link_then l), Fulfilled)]"
      unfolding queued_def by blast
    show ?thesis
    proof (cases js0)
      case Nil
      then have "shape dn (l # ls) (microtask r)"
        using shape_start(1) [OF assms [unfolded Cons] 1] js0 by simp
      then show ?thesis unfolding Cons by blast
    next
      case (Cons j js)
      have m: "microtasks r = j # js @ [(then_reaction (ExecuteAction (link_id l)) (link_then l), Fulfilled)]"
        using js0 Cons by simp
      note pop = shape_pop_queued [OF assms [unfolded \<open>rest = l # ls\<close>] m 1]
      have "shape dn (l # ls) (run_job j (r\<lparr>microtasks := js @ [(then_reaction (ExecuteAction (link_id l)) (link_then l), Fulfilled)]\<rparr>))"
        using pop(1) pop(2) by (rule shape_run_sr_job)
      then have "shape dn (l # ls) (microtask r)" using m by (simp add: microtask_def)
      then show ?thesis unfolding \<open>rest = l # ls\<close> by blast
    qed
  next
    case 2
    then have "microtask r = r" by (simp add: inflight_def microtask_def)
    then show ?thesis using assms by auto
  next
    case 3
    have "shape (dn @ [l]) ls (microtask r)"
      using assms [unfolded Cons] 3 by (rule shape_advance)
    then show ?thesis unfolding Cons by (intro exI [of _ "dn @ [l]"] exI [of _ ls]) simp
  qed
qed

lemma shape_handlerSettles:
  assumes "shape dn rest r"
  shows "shape dn rest (handlerSettles i sb r)"
proof (cases "find (\<lambda>c. fst c = i) (suspended r)")
  case None
  then show ?thesis using assms by (simp add: handlerSettles_def)
next
  case (Some call)
  then have ne: "suspended r \<noteq> []" by auto
  then obtain l ls where rest: "rest = l # ls"
    using assms by (cases rest) (auto simp: shape_def front_idle)
  let ?a = "link_id l" and ?t = "link_then l" and ?c = "link_catch l"
  let ?X = "set (map link_id dn)" and ?R = "set (refs_of (dn @ l # ls))"
  have st: "store dn (l # ls) r" and fr: "front dn (l # ls) r" using assms by (auto simp: shape_def rest)
  have w: "waiting r ?R (next_promise r) (insert ?a ?X) ?c ls"
    using fr by (simp add: front_active)
  have inf: "inflight dn l r"
    using fr ne by (auto simp: front_active queued_def catching_def)
  then obtain snap where
    sus: "suspended r = [(?a, snap, ?t)]" and mt: "microtasks r = []"
    and t: "promises r ?t = \<lparr>state = None, reactions = [catch_reaction LogActionFailed ?c]\<rparr>"
    and tr: "calls (trace r) = pairs dn @ [Started ?a]"
    unfolding inflight_def by blast
  have call: "call = (?a, snap, ?t)" "i = ?a"
    using Some sus by (auto split: if_splits)
  define s where "s = (case snd (run_handler sb snap) of Inl _ \<Rightarrow> Rejected | Inr _ \<Rightarrow> Fulfilled)"
  define u where "u = (case snd (run_handler sb snap) of
       Inl _ \<Rightarrow> no_update\<lparr>new_status := Some Failed, new_error := Some ''Action failed''\<rparr>
     | Inr _ \<Rightarrow> no_update\<lparr>new_status := Some (if abortSignals r ?a then Aborted else Complete)\<rparr>)"
  let ?r1 = "r\<lparr>suspended := [], trace := trace r @ map Effect (fst (run_handler sb snap)) @ [Ended ?a]\<rparr>"
  have eq: "handlerSettles i sb r = settle ?t s (updateAction ?a u ?r1)"
    using Some sus unfolding call handlerSettles_def s_def u_def
    by (auto simp: resumeExecuteAction_def split: prod.splits sum.splits)
  have sh1: "shape dn (l # ls) (r\<lparr>suspended := [], microtasks := [(catch_reaction LogActionFailed ?c, s)],
        promises := (promises r)(?t := \<lparr>state = Some s, reactions = []\<rparr>),
        trace := trace r @ map Effect (fst (run_handler sb snap)) @ [Ended ?a]\<rparr>)" (is "shape _ _ ?r2")
  proof -
    have dist: "distinct (refs_of (dn @ l # ls))" using st by (simp add: store_def)
    have tne: "?t \<notin> set (refs_of dn)" "?t \<notin> insert ?c (set (link_refs ls))"
      using dist by (auto simp: refs_of_def)
    have "store dn (l # ls) ?r2"
    proof (rule store_frame [OF st])
      show "\<forall>p. p \<notin> ?R \<longrightarrow> reactions (promises ?r2 p) = []"
        using st by (simp add: store_def)
      show "\<forall>p\<in>set (refs_of dn). promises ?r2 p = promises r p"
        using tne by auto
    qed simp_all
    moreover have "waiting ?r2 ?R (next_promise r) (insert ?a ?X) ?c ls"
      using w by (rule waiting_cong) (use tne in auto)
    moreover have "catching dn l ?r2"
      unfolding catching_def using tr by simp
    ultimately show ?thesis by (simp add: shape_def front_active)
  qed
  have "updateAction ?a u ?r1 = ?r1\<lparr>actions := actions (updateAction ?a u ?r1)\<rparr>"
    by (simp add: updateAction_def split: option.splits)
  have eq2: "handlerSettles i sb r = ?r2\<lparr>actions := actions (updateAction ?a u r)\<rparr>"
    unfolding eq using t mt
    by (simp add: settle_def updateAction_def split: option.splits)
  show ?thesis unfolding eq2 rest
  proof (rule shape_frame [OF sh1])
    show "\<forall>j. (\<exists>st. actions (?r2\<lparr>actions := actions (updateAction ?a u r)\<rparr>) j = Some st \<and> executed st) \<longleftrightarrow>
              (\<exists>st. actions ?r2 j = Some st \<and> executed st)"
      by (auto simp: actions_updateAction u_def split: sum.splits)
    show "\<forall>p. p \<notin> ?R \<longrightarrow> reactions (promises (?r2\<lparr>actions := actions (updateAction ?a u r)\<rparr>) p) = []"
      using shape_junk [OF sh1] by simp
  qed simp_all
qed

lemma runAction_Inr:
  "actions r i = Some a0 \<Longrightarrow> \<exists>r'. runAction i a r = Inr r'"
  by (auto simp: runAction_def Let_def split: prod.splits)

lemma inv_step:
  assumes "inv F r"
  shows "inv (F @ finalizes e r) (step e r)"
proof -
  obtain dn rest where F: "F = map link_id (dn @ rest)" and sh: "shape dn rest r"
    using assms unfolding inv_def by blast
  show ?thesis
  proof (cases e)
    case (AddAction i a)
    have "shape dn rest (addAction i a r)"
    proof (cases "actions r i")
      case None
      then show ?thesis
        using sh shape_addAction_idle shape_addAction_active by (cases rest) auto
    next
      case (Some st)
      then show ?thesis using sh by (simp add: addAction_def)
    qed
    then show ?thesis unfolding inv_def using F AddAction by (auto simp: finalizes_def)
  next
    case (RunAction i a)
    show ?thesis
    proof (cases "actions r i")
      case None
      then show ?thesis using assms RunAction by (simp add: finalizes_def runAction_def)
    next
      case (Some a0)
      show ?thesis
      proof (cases "executed a0")
        case True
        then show ?thesis using assms RunAction Some by (simp add: finalizes_def runAction_def)
      next
        case False
        obtain r' where r': "runAction i a r = Inr r'" using runAction_Inr [OF Some] by blast
        let ?k = "Link i (next_promise r) (Suc (next_promise r))"
        have "shape dn (rest @ [?k]) r'"
          using sh shape_runAction_idle [OF _ Some False r'] shape_runAction_active [OF _ Some False r']
          by (cases rest) auto
        moreover have "F @ finalizes e r = map link_id (dn @ rest @ [?k])"
          using F RunAction Some False by (simp add: finalizes_def)
        ultimately show ?thesis unfolding inv_def using RunAction r'
          by (intro exI [of _ dn] exI [of _ "rest @ [?k]"]) simp
      qed
    qed
  next
    case (Abort i)
    then show ?thesis using assms sh F shape_abort [OF sh] unfolding inv_def
      by (auto simp: finalizes_def)
  next
    case Microtask
    obtain dn' rest' where "dn' @ rest' = dn @ rest" "shape dn' rest' (microtask r)"
      using shape_microtask [OF sh] by blast
    then have "inv F (microtask r)" unfolding inv_def F by metis
    then show ?thesis using Microtask by (simp add: finalizes_def)
  next
    case (HandlerSettles i sb)
    then show ?thesis using shape_handlerSettles [OF sh] F unfolding inv_def
      by (auto simp: finalizes_def)
  qed
qed

lemma run_Cons [simp]: "run (e # es) r = run es (step e r)"
  by (simp add: run_def)

lemma run_Nil [simp]: "run [] r = r"
  by (simp add: run_def)

lemma run_append: "run (es @ es') r = run es' (run es r)"
  by (simp add: run_def)


lemma inv_run: "inv F r \<Longrightarrow> inv (F @ finalized r es) (run es r)"
proof (induction es arbitrary: F r)
  case Nil
  then show ?case by simp
next
  case (Cons e es)
  show ?case using Cons.IH [OF inv_step [OF Cons.prems, of e]] by simp
qed

lemma inv_reachable: "inv (finalized init es) (run es init)"
  using inv_run [OF inv_init, of es] by simp

lemma serial_pairs:
  "serial (map link_id (dn @ rest)) (pairs dn)"
  "serial (map link_id (dn @ l # ls)) (pairs dn @ [Started (link_id l)])"
  "serial (map link_id (dn @ l # ls)) (pairs dn @ [Started (link_id l), Ended (link_id l)])"
  by (induction dn) simp_all

lemma inv_serial: "inv F r \<Longrightarrow> serial F (calls (trace r))"
proof -
  assume "inv F r"
  then obtain dn rest where F: "F = map link_id (dn @ rest)" and sh: "shape dn rest r"
    unfolding inv_def by blast
  show ?thesis
  proof (cases rest)
    case Nil
    then show ?thesis using sh serial_pairs(1) [of dn "[]"] by (simp add: F shape_def front_idle)
  next
    case (Cons l ls)
    then have "queued dn l ls r \<or> inflight dn l r \<or> catching dn l r"
      using sh by (simp add: shape_def front_active)
    then show ?thesis unfolding F Cons
      using serial_pairs(1) [of dn "l # ls"] serial_pairs(2,3) [of dn l ls]
      by (auto simp: queued_def inflight_def catching_def)
  qed
qed

lemma inv_distinct: "inv F r \<Longrightarrow> distinct F"
  unfolding inv_def shape_def store_def by auto

lemma inv_executed: "inv F r \<Longrightarrow> i \<in> set F \<longleftrightarrow> (\<exists>st. actions r i = Some st \<and> executed st)"
  unfolding inv_def shape_def store_def by auto

section \<open>Order and number of the executions\<close>



subsection \<open>Records stay, and \<^verbatim>\<open>executed\<close> is set once\<close>

lemma grows_refl [simp]: "grows r r"
  by (simp add: grows_def)

lemma grows_trans: "grows r r' \<Longrightarrow> grows r' r'' \<Longrightarrow> grows r r''"
  unfolding grows_def by (meson)

lemma grows_actions: "actions r' = actions r \<Longrightarrow> grows r r'"
  by (simp add: grows_def)

lemma grows_updateAction:
  "new_action u = None \<Longrightarrow> new_executed u = None \<Longrightarrow> new_status u \<noteq> Some Pending \<Longrightarrow>
   grows r (updateAction i u r)"
  by (auto simp: grows_def actions_updateAction spread_def split: option.splits)

lemma grows_settle [simp]: "grows r (settle p s r') \<longleftrightarrow> grows r r'"
  by (simp add: grows_def)

lemma actions_register [simp]: "actions (register p x r) = actions r"
  by (simp add: register_def split: option.splits)

lemma actions_promise_then [simp]: "actions (snd (promise_then p cb r)) = actions r"
  by (simp add: promise_then_def new_promise_def)

lemma actions_promise_catch [simp]: "actions (snd (promise_catch p cb r)) = actions r"
  by (simp add: promise_catch_def new_promise_def)

lemma grows_addAction: "grows r (addAction i a r)"
  by (auto simp: grows_def addAction_def Let_def split: option.splits)

lemma or_else_idem [simp]: "or_else (or_else x y) y = or_else x y"
  by (cases x; cases y) simp_all

lemma spread_action_idem [simp]: "spread_action x (spread_action x a) = spread_action x a"
  by (cases x; cases a) simp_all

lemma spread_as_update:
  "spread st ((as_update st)\<lparr>new_action := Some (spread_action (action st) a), new_executed := Some True\<rparr>) =
     st\<lparr>action := spread_action (action st) a, executed := True\<rparr>"
  by (cases "error st") (simp_all add: spread_def as_update_def)

lemma actions_runAction:
  "actions r i = Some st \<Longrightarrow> \<not> executed st \<Longrightarrow> runAction i a r = Inr r' \<Longrightarrow>
   actions r' = (actions r)(i \<mapsto> st\<lparr>action := spread_action (action st) a, executed := True\<rparr>)"
  by (auto simp: runAction_def Let_def promise_then_def promise_catch_def new_promise_def
                 updateAction_def spread_as_update
           split: prod.splits)

lemma grows_runAction: "runAction i a r = Inr r' \<Longrightarrow> grows r r'"
proof (cases "actions r i")
  case None
  then show "runAction i a r = Inr r' \<Longrightarrow> grows r r'" by (simp add: runAction_def)
next
  case (Some st)
  assume r': "runAction i a r = Inr r'"
  show "grows r r'"
  proof (cases "executed st")
    case True
    then show ?thesis using Some r' by (simp add: runAction_def)
  next
    case False
    show ?thesis unfolding grows_def actions_runAction [OF Some False r'] using Some by auto
  qed
qed

lemma grows_abort: "grows r (abort i r)"
proof -
  have "grows r (r\<lparr>abortSignals := (abortSignals r)(i := True)\<rparr>)"
    by (rule grows_actions) simp
  then show ?thesis unfolding abort_def
    by (rule grows_trans) (rule grows_updateAction, simp_all add: no_update_def)
qed

lemma grows_run_job: "grows r (run_job j r)"
proof -
  have u: "\<And>i s r. s \<noteq> Pending \<Longrightarrow> grows r (updateAction i (no_update\<lparr>new_status := Some s\<rparr>) r)"
    by (rule grows_updateAction) (simp_all add: no_update_def)
  have e: "grows r (executeAction i p r)" for i p
  proof (cases "actions r i")
    case None
    then show ?thesis by (simp add: executeAction_def)
  next
    case (Some a)
    have "grows (updateAction i (no_update\<lparr>new_status := Some Running\<rparr>) r) (executeAction i p r)"
      using Some by (intro grows_actions) (simp add: executeAction_def Let_def)
    then show ?thesis using grows_trans [OF u [of Running]] by blast
  qed
  show ?thesis
    unfolding run_job_def run_callback_def
    by (auto split: prod.splits option.splits callback.splits settlement.splits
             intro: u e grows_actions)
qed

lemma grows_microtask: "grows r (microtask r)"
  unfolding microtask_def
  by (auto split: list.splits intro: grows_trans [OF grows_actions grows_run_job])

lemma grows_handlerSettles: "grows r (handlerSettles i sb r)"
proof (cases "find (\<lambda>c. fst c = i) (suspended r)")
  case None
  then show ?thesis by (simp add: handlerSettles_def)
next
  case (Some c)
  obtain j a p where c: "c = (j, a, p)" by (cases c)
  let ?r0 = "r\<lparr>suspended := remove1 (j, a, p) (suspended r)\<rparr>"
  have "grows r0 (resumeExecuteAction sb (j, a, p) r0)" for r0
    unfolding grows_def
    by (auto simp: actions_resumeExecuteAction split: sum.splits)
  moreover have "grows r ?r0" by (rule grows_actions) simp
  ultimately show ?thesis unfolding handlerSettles_found [OF Some] c
    using grows_trans by blast
qed

lemma grows_step: "grows r (step e r)"
  by (cases e)
     (auto simp: grows_addAction grows_abort grows_microtask grows_handlerSettles
           split: sum.splits intro: grows_runAction)

lemma serial_started:
  "serial F t \<Longrightarrow>
   started t = take (length (started t)) F \<and> ended t = take (length (ended t)) F \<and>
   (length (started t) = length (ended t) \<or> length (started t) = Suc (length (ended t)))"
  by (induction F t rule: serial.induct) auto

lemma started_calls [simp]: "started (calls t) = started t"
  by (induction t rule: started.induct) simp_all

lemma ended_calls [simp]: "ended (calls t) = ended t"
  by (induction t rule: ended.induct) simp_all

lemma count_started: "count_list t (Started i) = count_list (started t) i"
  by (induction t rule: started.induct) simp_all

lemma set_started: "Started i \<in> set t \<longleftrightarrow> i \<in> set (started t)"
  by (induction t rule: started.induct) auto

lemma set_ended: "Ended i \<in> set t \<longleftrightarrow> i \<in> set (ended t)"
  by (induction t rule: ended.induct) auto

lemma count_distinct: "distinct xs \<Longrightarrow> count_list xs i \<le> 1"
  by (induction xs) (auto simp: count_list_0_iff)

lemma count_take_distinct: "distinct xs \<Longrightarrow> count_list (take k xs) i \<le> 1"
  by (rule count_distinct) simp

lemma inv_started:
  assumes "inv F r"
  shows "started (trace r) = take (length (started (trace r))) F"
    and "ended (trace r) = take (length (ended (trace r))) F"
    and "length (started (trace r)) = length (ended (trace r)) \<or>
         length (started (trace r)) = Suc (length (ended (trace r)))"
  using serial_started [OF inv_serial [OF assms]] by simp_all

text \<open>
  C2. The handler of an action is called at most once, however often the action is
  finalized; and \<^verbatim>\<open>runAction\<close> for an action whose \<^verbatim>\<open>executed\<close> is set leaves the runner
  as it is, and no event resets \<^verbatim>\<open>executed\<close>.
\<close>

theorem executed_once:
  "count_list (trace (run es init)) (Started i) \<le> 1 \<and>
   (\<forall>st. actions r i = Some st \<and> executed st \<longrightarrow>
      runAction i a r = Inr r \<and> (\<exists>st'. actions (step e r) i = Some st' \<and> executed st'))"
proof -
  have "count_list (trace (run es init)) (Started i) \<le> 1"
    using inv_started(1) [OF inv_reachable [of es]] inv_distinct [OF inv_reachable [of es]]
    by (metis count_started count_take_distinct)
  moreover have "runAction i a r = Inr r" if "actions r i = Some st" "executed st" for st
    using that by (simp add: runAction_def)
  moreover have "\<exists>st'. actions (step e r) i = Some st' \<and> executed st'"
    if "actions r i = Some st" "executed st" for st
    using that grows_step [of r e] unfolding grows_def by blast
  ultimately show ?thesis by blast
qed

theorem executed_once_witness:
  "count_list (trace (run twice_finalized init)) (Started ''a'') = 1 \<and>
   map_option executed (actions (run twice_finalized init) ''a'') = Some True \<and>
   runAction ''a'' (ShellAction ''ls'') (run twice_finalized init) = Inr (run twice_finalized init) \<and>
   map_option executed
     (actions (step (RunAction ''a'' (ShellAction ''ls'')) (run twice_finalized init)) ''a'') = Some True"
  using executed_once [of twice_finalized "''a''" "run twice_finalized init" "ShellAction ''ls''"
                          "RunAction ''a'' (ShellAction ''ls'')"]
  by (simp add: twice_finalized_def eval_defs handler_defs sample_container_def)

section \<open>The status of a record\<close>

lemma inv_started_finalized: "inv F r \<Longrightarrow> Started i \<in> set (trace r) \<Longrightarrow> i \<in> set F"
  using inv_started(1) [of F r] by (metis in_set_takeD set_started)

lemma actions_addAction_other: "j \<noteq> i \<Longrightarrow> actions (addAction j a r) i = actions r i"
  by (simp add: addAction_def Let_def split: option.splits)

lemma actions_step_RunAction_other:
  assumes "j \<noteq> i"
  shows "actions (step (RunAction j a) r) i = actions r i"
proof (cases "actions r j")
  case None
  then show ?thesis by (simp add: runAction_def)
next
  case (Some st)
  show ?thesis
  proof (cases "executed st")
    case True
    then show ?thesis using Some by (simp add: runAction_def)
  next
    case False
    obtain r' where r': "runAction j a r = Inr r'" using runAction_Inr [OF Some] by blast
    show ?thesis using actions_runAction [OF Some False r'] r' assms by simp
  qed
qed

lemma started_append [simp]: "started (xs @ ys) = started xs @ started ys"
  by (induction xs rule: started.induct) simp_all

lemma ended_append [simp]: "ended (xs @ ys) = ended xs @ ended ys"
  by (induction xs rule: ended.induct) simp_all

lemma started_pairs [simp]: "started (pairs dn) = map link_id dn"
  by (induction dn) simp_all

lemma ended_pairs [simp]: "ended (pairs dn) = map link_id dn"
  by (induction dn) simp_all

lemma actions_abort_other: "j \<noteq> i \<Longrightarrow> actions (abort j r) i = actions r i"
  by (simp add: abort_def actions_updateAction)

lemma actions_run_sr_job_other:
  "j \<noteq> i \<Longrightarrow> actions (run_job (then_reaction (SetRunning j) d, Fulfilled) r) i = actions r i"
  by (simp add: run_sr_job actions_updateAction)

lemma shape_ended:
  assumes "shape dn rest r" and "Ended i \<in> set (trace r)"
  shows "i \<in> set (map link_id dn) \<or> (\<exists>l ls. rest = l # ls \<and> catching dn l r \<and> i = link_id l)"
proof -
  have e: "i \<in> set (ended (calls (trace r)))" using assms(2) by (simp add: set_ended)
  have p: "set (ended (pairs dn)) = set (map link_id dn)" by simp
  show ?thesis
  proof (cases rest)
    case Nil
    then show ?thesis using assms(1) e p by (simp add: shape_def front_idle)
  next
    case (Cons l ls)
    then have "queued dn l ls r \<or> inflight dn l r \<or> catching dn l r"
      using assms(1) by (simp add: shape_def front_active)
    then show ?thesis
    proof (elim disjE)
      assume "queued dn l ls r" then show ?thesis using e p by (simp add: queued_def)
    next
      assume "inflight dn l r"
      then have "calls (trace r) = pairs dn @ [Started (link_id l)]" by (simp add: inflight_def)
      then have "ended (calls (trace r)) = ended (pairs dn)" by simp
      then show ?thesis using e p by simp
    next
      assume c: "catching dn l r"
      then have "calls (trace r) = pairs dn @ [Started (link_id l), Ended (link_id l)]"
        by (simp add: catching_def)
      then have "ended (calls (trace r)) = ended (pairs dn) @ [link_id l]" by simp
      then show ?thesis using e p c Cons by auto
    qed
  qed
qed

lemma shape_active_fresh:
  "shape dn (l # ls) r \<Longrightarrow> link_id l \<notin> set (map link_id dn)"
  by (auto simp: shape_def store_def)

lemma settled_microtask:
  assumes "shape dn rest r" and "Ended i \<in> set (trace r)"
  shows "actions (microtask r) i = actions r i"
proof (cases "microtasks r")
  case Nil
  then show ?thesis by (simp add: microtask_def)
next
  case (Cons j js)
  note ended = shape_ended [OF assms]
  have sr: "actions (run_job j r0) i = actions r0 i"
    if h: "sr_job (set (map link_id dn)) R n j" for R n r0
  proof -
    obtain k d where "j = (then_reaction (SetRunning k) d, Fulfilled)" "k \<notin> set (map link_id dn)"
      using h unfolding sr_job_def sr_reaction_def by blast
    moreover have "i \<in> set (map link_id dn)"
      using ended h Cons by (auto simp: catching_def sr_job_def sr_reaction_def then_reaction_def catch_reaction_def)
    ultimately show ?thesis using actions_run_sr_job_other [of k i] by auto
  qed
  show ?thesis
  proof (cases rest)
    case Nil
    then have "sr_job (set (map link_id dn)) (set (refs_of dn)) (next_promise r) j"
      using assms(1) Cons by (simp add: shape_def front_idle)
    then show ?thesis using sr Cons by (simp add: microtask_def)
  next
    case rest: (Cons l ls)
    then consider "queued dn l ls r" | "inflight dn l r" | "catching dn l r"
      using assms(1) by (auto simp: shape_def front_active)
    then show ?thesis
    proof cases
      case 1
      then obtain js0 where
        js0: "microtasks r = js0 @ [(then_reaction (ExecuteAction (link_id l)) (link_then l), Fulfilled)]"
             "\<forall>j\<in>set js0. sr_job (set (map link_id dn)) (set (refs_of (dn @ l # ls))) (next_promise r) j"
        unfolding queued_def by blast
      show ?thesis
      proof (cases js0)
        case Nil
        have ne: "link_id l \<noteq> i"
          using ended shape_active_fresh [OF assms(1) [unfolded rest]] 1 Cons js0 Nil
          by (auto simp: catching_def queued_def)
        have "j = (then_reaction (ExecuteAction (link_id l)) (link_then l), Fulfilled)" "js = []"
          using js0(1) Nil Cons by auto
        then show ?thesis using Cons ne
          by (auto simp: microtask_def run_job_def then_reaction_def run_callback_def
                         executeAction_def Let_def actions_updateAction split: option.splits)
      next
        case c: (Cons j' js')
        then have "sr_job (set (map link_id dn)) (set (refs_of (dn @ l # ls))) (next_promise r) j"
          using js0 Cons by auto
        then show ?thesis using sr Cons by (simp add: microtask_def)
      qed
    next
      case 2
      then show ?thesis using Cons by (simp add: inflight_def)
    next
      case 3
      then obtain s where "microtasks r = [(catch_reaction LogActionFailed (link_catch l), s)]"
        unfolding catching_def by blast
      then show ?thesis
        using run_catch_job [of "link_catch l" s "r\<lparr>microtasks := []\<rparr>"]
        by (auto simp: microtask_def)
    qed
  qed
qed

lemma settled_handlerSettles:
  assumes "shape dn rest r" and "Ended i \<in> set (trace r)"
  shows "actions (handlerSettles j sb r) i = actions r i"
proof (cases "find (\<lambda>c. fst c = j) (suspended r)")
  case None
  then show ?thesis by (simp add: handlerSettles_def)
next
  case (Some c)
  then have ne: "suspended r \<noteq> []" by auto
  then obtain l ls where rest: "rest = l # ls"
    using assms(1) by (cases rest) (auto simp: shape_def front_idle)
  have inf: "inflight dn l r"
    using assms(1) ne by (auto simp: shape_def rest front_active queued_def catching_def)
  then obtain snap where sus: "suspended r = [(link_id l, snap, link_then l)]"
    unfolding inflight_def by blast
  have c: "c = (link_id l, snap, link_then l)" using Some sus by (auto split: if_splits)
  have "link_id l \<noteq> i"
    using shape_ended [OF assms] shape_active_fresh [OF assms(1) [unfolded rest]] inf rest
    by (auto simp: inflight_def catching_def)
  then show ?thesis
    unfolding handlerSettles_found [OF Some] c by (simp add: actions_resumeExecuteAction)
qed

lemma settled_step:
  assumes "inv F r" and "Ended i \<in> set (trace r)" and "e \<noteq> Abort i"
  shows "actions (step e r) i = actions r i"
proof -
  obtain dn rest where F: "F = map link_id (dn @ rest)" and sh: "shape dn rest r"
    using assms(1) unfolding inv_def by blast
  have "i \<in> set (ended (trace r))" using assms(2) by (simp add: set_ended)
  then have "i \<in> set F" using inv_started(2) [OF assms(1)] by (metis in_set_takeD)
  then obtain st where st: "actions r i = Some st" "executed st"
    using inv_executed [OF assms(1)] by blast
  show ?thesis
  proof (cases e)
    case (AddAction j a)
    show ?thesis
    proof (cases "j = i")
      case True
      then show ?thesis using st AddAction by (simp add: addAction_def)
    next
      case False
      then show ?thesis using AddAction by (simp add: actions_addAction_other)
    qed
  next
    case (RunAction j a)
    show ?thesis
    proof (cases "j = i")
      case True
      then show ?thesis using st RunAction by (simp add: runAction_def)
    next
      case False
      then show ?thesis using RunAction actions_step_RunAction_other [OF False] by simp
    qed
  next
    case (Abort j)
    then show ?thesis using assms(3) by (simp add: actions_abort_other)
  next
    case Microtask
    then show ?thesis using settled_microtask [OF sh assms(2)] by simp
  next
    case (HandlerSettles j sb)
    then show ?thesis using settled_handlerSettles [OF sh assms(2)] by simp
  qed
qed

lemma trace_register [simp]: "trace (register p x r) = trace r"
  by (simp add: register_def split: option.splits)

lemma trace_addAction [simp]: "trace (addAction i a r) = trace r"
  by (simp add: addAction_def Let_def promise_then_def new_promise_def split: option.splits)

lemma trace_promise_then [simp]: "trace (snd (promise_then p cb r)) = trace r"
  by (simp add: promise_then_def new_promise_def)

lemma trace_promise_catch [simp]: "trace (snd (promise_catch p cb r)) = trace r"
  by (simp add: promise_catch_def new_promise_def)

lemma trace_runAction: "runAction i a r = Inr r' \<Longrightarrow> trace r' = trace r"
  by (auto simp: runAction_def Let_def case_prod_beta split: option.splits if_splits)

lemma trace_abort [simp]: "trace (abort i r) = trace r"
  by (simp add: abort_def)

lemma ended_executeAction [simp]: "ended (trace (executeAction i p r)) = ended (trace r)"
  by (simp add: executeAction_def Let_def split: option.splits)

lemma ended_run_callback [simp]: "ended (trace (run_callback cb d r)) = ended (trace r)"
  by (cases cb) (simp_all add: run_callback_def)

lemma ended_run_job: "ended (trace (run_job j r)) = ended (trace r)"
  by (cases j) (simp add: run_job_def split: option.splits settlement.splits)

lemma ended_microtask: "ended (trace (microtask r)) = ended (trace r)"
  by (simp add: microtask_def ended_run_job split: list.splits)

lemma ended_map_Effect [simp]: "ended (map Effect fx) = []"
  by (induction fx) simp_all

lemma find_fst: "find (\<lambda>c. fst c = i) xs = Some c \<Longrightarrow> fst c = i"
  by (induction xs) (auto split: if_splits)

lemma ended_handlerSettles:
  "ended (trace (handlerSettles i sb r)) =
     ended (trace r) @ (if find (\<lambda>c. fst c = i) (suspended r) = None then [] else [i])"
proof (cases "find (\<lambda>c. fst c = i) (suspended r)")
  case None
  then show ?thesis by (simp add: handlerSettles_def)
next
  case (Some c)
  obtain j a p where c: "c = (j, a, p)" by (cases c)
  have "j = i" using find_fst [OF Some] c by simp
  then show ?thesis
    unfolding handlerSettles_found [OF Some] c using Some
    by (simp add: trace_resumeExecuteAction)
qed

lemma ended_step:
  "ended (trace (step e r)) =
     ended (trace r) @
     (case e of
        HandlerSettles i sb \<Rightarrow> if find (\<lambda>c. fst c = i) (suspended r) = None then [] else [i]
      | _ \<Rightarrow> [])"
proof (cases e)
  case (RunAction i a)
  then show ?thesis by (cases "runAction i a r") (simp_all add: trace_runAction)
qed (simp_all add: ended_microtask ended_handlerSettles)

lemma inv_suspended_record:
  assumes "inv F r" and "find (\<lambda>c. fst c = i) (suspended r) = Some c"
  shows "\<exists>st. actions r i = Some st"
proof -
  obtain dn rest where F: "F = map link_id (dn @ rest)" and sh: "shape dn rest r"
    using assms(1) unfolding inv_def by blast
  have ne: "suspended r \<noteq> []" using assms(2) by auto
  then obtain l ls where rest: "rest = l # ls"
    using sh by (cases rest) (auto simp: shape_def front_idle)
  have "inflight dn l r"
    using sh ne by (auto simp: shape_def rest front_active queued_def catching_def)
  then obtain snap where sus: "suspended r = [(link_id l, snap, link_then l)]"
    unfolding inflight_def by blast
  then have "i = link_id l" using assms(2) by (auto split: if_splits)
  then have "i \<in> set F" by (simp add: F rest)
  then show ?thesis using inv_executed [OF assms(1)] by blast
qed

lemma status_handlerSettles:
  assumes "actions r i = Some st" and "find (\<lambda>c. fst c = i) (suspended r) = Some c"
  shows "\<exists>st'. actions (handlerSettles i sb r) i = Some st' \<and> terminal (status st')"
proof -
  obtain j a p where c: "c = (j, a, p)" by (cases c)
  have "j = i" using find_fst [OF assms(2)] c by simp
  then show ?thesis
    unfolding handlerSettles_found [OF assms(2)] c using assms(1)
    by (auto simp: actions_resumeExecuteAction terminal_def split: sum.splits)
qed

lemma status_abort:
  "actions r i = Some st \<Longrightarrow>
   \<exists>st'. actions (step (Abort i) r) i = Some st' \<and> status st' = Aborted \<and> executed st' = executed st"
  by (simp add: abort_def actions_updateAction)

lemma settled_terminal:
  "Ended i \<in> set (trace (run es init)) \<Longrightarrow>
   \<exists>st. actions (run es init) i = Some st \<and> terminal (status st)"
proof (induction es rule: rev_induct)
  case Nil
  then show ?case by (simp add: init_def)
next
  case (snoc e es)
  let ?r = "run es init"
  have run: "run (es @ [e]) init = step e ?r" by (simp add: run_append)
  have inv: "inv (finalized init es) ?r" by (rule inv_reachable)
  show ?case
  proof (cases "Ended i \<in> set (trace ?r)")
    case True
    then obtain st where st: "actions ?r i = Some st" "terminal (status st)"
      using snoc.IH by blast
    show ?thesis
    proof (cases "e = Abort i")
      case True
      obtain st' where "actions (step (Abort i) ?r) i = Some st'" "status st' = Aborted"
        using status_abort [OF st(1)] by blast
      then show ?thesis by (simp add: run_append True terminal_def)
    next
      case False
      then show ?thesis using settled_step [OF inv True False] st unfolding run by simp
    qed
  next
    case False
    have "i \<in> set (ended (trace (step e ?r)))" using snoc.prems unfolding run by (simp add: set_ended)
    moreover have "i \<notin> set (ended (trace ?r))" using False by (simp add: set_ended)
    ultimately obtain sb c where e: "e = HandlerSettles i sb"
      and c: "find (\<lambda>c. fst c = i) (suspended ?r) = Some c"
      unfolding ended_step by (cases e) (auto split: if_splits)
    obtain st where "actions ?r i = Some st" using inv_suspended_record [OF inv c] by blast
    then obtain st' where "actions (handlerSettles i sb ?r) i = Some st'" "terminal (status st')"
      using status_handlerSettles [OF _ c] by blast
    then show ?thesis by (simp add: run_append e)
  qed
qed

text \<open>
  C7, as amended. No event returns a record to \<open>Pending\<close>. Once the handler of an action
  has settled, the status of the action is \<open>Complete\<close>, \<open>Aborted\<close> or \<open>Failed\<close>, and the only
  event that still changes its record is a call of its \<^verbatim>\<open>abort\<close>, which sets \<open>Aborted\<close>.
\<close>

theorem status_after_settling:
  "(\<forall>st. actions r i = Some st \<and> status st \<noteq> Pending \<longrightarrow>
      (\<exists>st'. actions (step e r) i = Some st' \<and> status st' \<noteq> Pending)) \<and>
   (Ended i \<in> set (trace (run es init)) \<longrightarrow>
      (\<exists>st. actions (run es init) i = Some st \<and> terminal (status st)) \<and>
      (\<forall>e'. e' \<noteq> Abort i \<longrightarrow> actions (step e' (run es init)) i = actions (run es init) i) \<and>
      map_option status (actions (step (Abort i) (run es init)) i) = Some Aborted)"
proof (intro conjI allI impI)
  fix st assume "actions r i = Some st \<and> status st \<noteq> Pending"
  then show "\<exists>st'. actions (step e r) i = Some st' \<and> status st' \<noteq> Pending"
    using grows_step [of r e] unfolding grows_def by blast
next
  assume "Ended i \<in> set (trace (run es init))"
  then show "\<exists>st. actions (run es init) i = Some st \<and> terminal (status st)"
    by (rule settled_terminal)
next
  fix e' assume "Ended i \<in> set (trace (run es init))" "e' \<noteq> Abort i"
  then show "actions (step e' (run es init)) i = actions (run es init) i"
    by (rule settled_step [OF inv_reachable])
next
  assume "Ended i \<in> set (trace (run es init))"
  then obtain st where st: "actions (run es init) i = Some st"
    using settled_terminal by blast
  obtain st' where "actions (step (Abort i) (run es init)) i = Some st'" "status st' = Aborted"
    using status_abort [OF st] by blast
  then show "map_option status (actions (step (Abort i) (run es init)) i) = Some Aborted"
    by simp
qed

theorem status_after_settling_witness:
  "Ended ''a'' \<in> set (trace (run settled_run init)) \<and>
   map_option status (actions (run settled_run init) ''a'') = Some Complete \<and>
   actions (step Microtask (run settled_run init)) ''a'' = actions (run settled_run init) ''a'' \<and>
   map_option status (actions (step (Abort ''a'') (run settled_run init)) ''a'') = Some Aborted"
  using status_after_settling [of "run settled_run init" "''a''" Microtask settled_run]
  by (simp add: settled_run_def eval_defs handler_defs sample_container_def terminal_def)

text \<open>
  The claim as stated fails twice: an action that is \<open>Complete\<close> becomes \<open>Aborted\<close> when its
  \<^verbatim>\<open>abort\<close> is called; and an action cancelled while pending, which is \<open>Aborted\<close>, becomes
  \<open>Running\<close> when the promise it was registered on settles.
\<close>

theorem terminal_status_changes:
  "map_option status (actions (run settled_run init) ''a'') = Some Complete \<and>
   map_option status (actions (run (settled_run @ [Abort ''a'']) init) ''a'') = Some Aborted \<and>
   map_option status (actions (run cancelled_pending init) ''b'') = Some Aborted \<and>
   map_option status
     (actions
        (run (cancelled_pending @
              [HandlerSettles ''a'' (sample_container 0 (Inr ()) (Inr ()) []), Microtask, Microtask])
           init) ''b'') = Some Running"
  by (simp add: settled_run_def cancelled_pending_def eval_defs handler_defs sample_container_def)

text \<open>
  C8, as amended. \<^verbatim>\<open>runAction\<close> sets \<^verbatim>\<open>executed\<close> when the action is finalized and leaves the
  status as it is; the status becomes \<open>Running\<close> later, in the step that calls the handler (or
  when the callback of the registration runs); and whenever the handler of an action has
  been called, \<^verbatim>\<open>executed\<close> is set.
\<close>

theorem executed_before_running:
  "(\<forall>st. actions r i = Some st \<and> \<not> executed st \<longrightarrow>
      (\<exists>r' st'. runAction i a r = Inr r' \<and> actions r' i = Some st' \<and> executed st' \<and>
                status st' = status st)) \<and>
   (\<forall>st. actions r i = Some st \<longrightarrow>
      map_option status (actions (executeAction i p r) i) = Some Running \<and>
      trace (executeAction i p r) = trace r @ [Started i]) \<and>
   (Started i \<in> set (trace (run es init)) \<longrightarrow>
      (\<exists>st. actions (run es init) i = Some st \<and> executed st))"
proof (intro conjI allI impI)
  fix st assume st: "actions r i = Some st \<and> \<not> executed st"
  then obtain r' where r': "runAction i a r = Inr r'" using runAction_Inr by blast
  have "actions r' i = Some (st\<lparr>action := spread_action (action st) a, executed := True\<rparr>)"
    using actions_runAction [OF _ _ r'] st by simp
  then show "\<exists>r' st'. runAction i a r = Inr r' \<and> actions r' i = Some st' \<and> executed st' \<and>
                status st' = status st"
    using r' by simp
next
  fix st assume "actions r i = Some st"
  then show "map_option status (actions (executeAction i p r) i) = Some Running"
    by (simp add: executeAction_def Let_def actions_updateAction)
next
  fix st assume "actions r i = Some st"
  then show "trace (executeAction i p r) = trace r @ [Started i]"
    by (simp add: executeAction_def Let_def)
next
  assume "Started i \<in> set (trace (run es init))"
  then have "i \<in> set (finalized init es)"
    using inv_started_finalized [OF inv_reachable] by blast
  then show "\<exists>st. actions (run es init) i = Some st \<and> executed st"
    using inv_executed [OF inv_reachable] by blast
qed

theorem executed_before_running_witness:
  "map_option (\<lambda>st. (executed st, status st))
     (actions (run [AddAction ''a'' (ShellAction ''ls'')] init) ''a'') = Some (False, Pending) \<and>
   map_option (\<lambda>st. (executed st, status st))
     (actions (step (RunAction ''a'' (ShellAction ''ls'')) (run [AddAction ''a'' (ShellAction ''ls'')] init)) ''a'')
     = Some (True, Pending) \<and>
   Started ''a'' \<in> set (trace (run settled_run init)) \<and>
   map_option executed (actions (run settled_run init) ''a'') = Some True"
  using executed_before_running
          [of "run [AddAction ''a'' (ShellAction ''ls'')] init" "''a''" "ShellAction ''ls''" 1 settled_run]
  by (simp add: settled_run_def eval_defs handler_defs sample_container_def)

text \<open>
  The claim as stated fails: after registration and finalize, before any job has run,
  \<^verbatim>\<open>executed\<close> is set and the status is \<open>Pending\<close>; and the action \<^verbatim>\<open>b\<close>, set running by the
  callback of its registration, cancelled and then executed, enters \<open>Running\<close> twice.
\<close>

theorem executed_while_pending:
  "map_option (\<lambda>st. (executed st, status st))
     (actions (run [AddAction ''a'' (ShellAction ''ls''), RunAction ''a'' (ShellAction ''ls'')] init) ''a'')
     = Some (True, Pending) \<and>
   map (\<lambda>es. map_option status (actions (run es init) ''b''))
     [[AddAction ''b'' (ShellAction ''ls'')],
      [AddAction ''b'' (ShellAction ''ls''), Microtask],
      [AddAction ''b'' (ShellAction ''ls''), Microtask, Abort ''b''],
      [AddAction ''b'' (ShellAction ''ls''), Microtask, Abort ''b'', RunAction ''b'' (ShellAction ''ls''),
       Microtask]]
     = [Some Pending, Some Running, Some Aborted, Some Running]"
  by (simp add: eval_defs)

text \<open>
  C9, as amended. Calling the \<^verbatim>\<open>abort\<close> of an action sets its status to \<open>Aborted\<close> at once and
  calls no handler: the trace, the suspended executions and the queue stay as they are, and
  so does \<^verbatim>\<open>executed\<close>. A handler is called only for an action that was finalized: an
  action that is cancelled and never finalized never has its handler called.
\<close>

theorem abort_calls_no_handler:
  "(\<forall>st. actions r i = Some st \<longrightarrow>
      (\<exists>st'. actions (step (Abort i) r) i = Some st' \<and> status st' = Aborted \<and>
             executed st' = executed st) \<and>
      trace (step (Abort i) r) = trace r \<and> suspended (step (Abort i) r) = suspended r \<and>
      microtasks (step (Abort i) r) = microtasks r \<and> promises (step (Abort i) r) = promises r) \<and>
   (Started i \<in> set (trace (run es init)) \<longrightarrow> i \<in> set (finalized init es))"
proof (intro conjI allI impI)
  fix st assume "actions r i = Some st"
  then show "\<exists>st'. actions (step (Abort i) r) i = Some st' \<and> status st' = Aborted \<and>
             executed st' = executed st"
    by (rule status_abort)
next
  assume "Started i \<in> set (trace (run es init))"
  then show "i \<in> set (finalized init es)"
    using inv_started_finalized [OF inv_reachable] by blast
qed (simp_all add: abort_def)

theorem abort_calls_no_handler_witness:
  "map_option status (actions (run (butlast cancelled_pending) init) ''b'') = Some Pending \<and>
   map_option (\<lambda>st. (status st, executed st)) (actions (run cancelled_pending init) ''b'')
     = Some (Aborted, False) \<and>
   trace (run cancelled_pending init) = trace (run (butlast cancelled_pending) init) \<and>
   Started ''b'' \<in> set (trace (run cancelled_then_finalized init)) \<and>
   ''b'' \<in> set (finalized init cancelled_then_finalized)"
  using abort_calls_no_handler [of "run (butlast cancelled_pending) init" "''b''" cancelled_then_finalized]
  by (simp add: cancelled_then_finalized_def cancelled_pending_def eval_defs handler_defs
                sample_container_def finalizes_def)

text \<open>
  The claim as stated fails: \<^verbatim>\<open>b\<close> is cancelled while \<open>Pending\<close> and finalized afterwards;
  \<^verbatim>\<open>executed\<close> was not set, so its handler is called when the lane reaches it.
\<close>

theorem cancelled_handler_called:
  "map_option status (actions (run (butlast cancelled_pending) init) ''b'') = Some Pending \<and>
   map_option status (actions (run cancelled_pending init) ''b'') = Some Aborted \<and>
   Started ''b'' \<in> set (trace (run cancelled_then_finalized init))"
  by (simp add: cancelled_then_finalized_def cancelled_pending_def eval_defs handler_defs
                sample_container_def)

section \<open>Failures and the rest of the chain\<close>

lemma drain_empty: "microtasks r = [] \<Longrightarrow> drain r = Some r"
  by (subst drain.simps) simp

lemma drain_step: "microtasks r \<noteq> [] \<Longrightarrow> drain r = drain (microtask r)"
  by (subst drain.simps) simp

lemma microtasks_run_sr_job:
  assumes "shape dn rest r" and "sr_job X (set (refs_of (dn @ rest))) n j"
  shows "microtasks (run_job j r) = microtasks r"
proof -
  obtain i d where j: "j = (then_reaction (SetRunning i) d, Fulfilled)"
    and d: "d \<notin> set (refs_of (dn @ rest))"
    using assms(2) by (auto simp: sr_job_def sr_reaction_def)
  have "reactions (promises r d) = []" using assms(1) d by (rule shape_junk)
  then show ?thesis unfolding j run_sr_job by (simp add: settle_def split: option.splits)
qed

lemma drain_idle:
  "shape dn [] r \<Longrightarrow>
   \<exists>r'. drain r = Some r' \<and> shape dn [] r' \<and> microtasks r' = [] \<and>
        ended (trace r') = ended (trace r)"
proof (induction "length (microtasks r)" arbitrary: r)
  case 0
  then show ?case by (auto simp: drain_empty)
next
  case (Suc k)
  then obtain j js where js: "microtasks r = j # js" by (cases "microtasks r") auto
  have sr: "sr_job (set (map link_id dn)) (set (refs_of (dn @ []))) (next_promise r) j"
    using Suc.prems js by (simp add: shape_def front_idle)
  have "microtasks (microtask r) = js"
    using microtasks_run_sr_job [OF shape_pop_idle [OF Suc.prems js] sr] js
    by (simp add: microtask_def)
  then have "k = length (microtasks (microtask r))" using Suc.hyps(2) js by simp
  then obtain r' where "drain (microtask r) = Some r'" "shape dn [] r'" "microtasks r' = []"
    "ended (trace r') = ended (trace (microtask r))"
    using Suc.hyps(1) [OF _ shape_microtask_idle [OF Suc.prems]] by blast
  then show ?case using drain_step [of r] js by (auto simp: ended_microtask)
qed

lemma queued_run_sr_job:
  assumes "shape dn (l # ls) r" and "queued dn l ls r" and "microtasks r = j # js @ [e]"
  shows "queued dn l ls (microtask r)" and "microtasks (microtask r) = js @ [e]"
proof -
  let ?r0 = "r\<lparr>microtasks := js @ [e]\<rparr>"
  note pop = shape_pop_queued [OF assms(1,3,2)]
  have m: "microtask r = run_job j ?r0" using assms(3) by (simp add: microtask_def)
  show mt: "microtasks (microtask r) = js @ [e]"
    unfolding m using microtasks_run_sr_job [OF pop] by simp
  have sh: "shape dn (l # ls) (microtask r)" unfolding m using pop by (rule shape_run_sr_job)
  have "\<not> inflight dn l (microtask r)" using mt by (simp add: inflight_def)
  moreover have "\<not> catching dn l (microtask r)"
  proof
    assume "catching dn l (microtask r)"
    then obtain s where s: "js @ [e] = [(catch_reaction LogActionFailed (link_catch l), s)]"
      using mt by (auto simp: catching_def)
    obtain js0 where
      "microtasks r = js0 @ [(then_reaction (ExecuteAction (link_id l)) (link_then l), Fulfilled)]"
      using assms(2) unfolding queued_def by blast
    then have "e = (then_reaction (ExecuteAction (link_id l)) (link_then l), Fulfilled)"
      using assms(3) by (metis append_Cons last_snoc)
    then show False using s by (simp add: then_reaction_def catch_reaction_def)
  qed
  ultimately show "queued dn l ls (microtask r)"
    using sh by (auto simp: shape_def front_active)
qed

lemma drain_queued:
  "shape dn (l # ls) r \<Longrightarrow> queued dn l ls r \<Longrightarrow>
   \<exists>r'. drain r = Some r' \<and> shape dn (l # ls) r' \<and> inflight dn l r' \<and>
        ended (trace r') = ended (trace r)"
proof (induction "length (microtasks r)" arbitrary: r)
  case 0
  then show ?case by (simp add: queued_def)
next
  case (Suc k)
  obtain js0 where
    js0: "microtasks r = js0 @ [(then_reaction (ExecuteAction (link_id l)) (link_then l), Fulfilled)]"
    using Suc.prems(2) unfolding queued_def by blast
  show ?case
  proof (cases js0)
    case Nil
    note st = shape_start [OF Suc.prems, of "(then_reaction (ExecuteAction (link_id l)) (link_then l), Fulfilled)"]
    have "microtasks (microtask r) = []" using st(2) js0 Nil by (simp add: inflight_def)
    then have "drain r = Some (microtask r)"
      using drain_step [of r] js0 by (simp add: drain_empty)
    then show ?thesis using st js0 Nil by (simp add: ended_microtask)
  next
    case (Cons j js)
    have m: "microtasks r = j # js @ [(then_reaction (ExecuteAction (link_id l)) (link_then l), Fulfilled)]"
      using js0 Cons by simp
    note q = queued_run_sr_job [OF Suc.prems m]
    have sh: "shape dn (l # ls) (microtask r)"
      using shape_run_sr_job [OF shape_pop_queued(1,2) [OF Suc.prems(1) m Suc.prems(2)]] m
      by (simp add: microtask_def)
    have "k = length (microtasks (microtask r))" using Suc.hyps(2) q(2) m by simp
    then obtain r' where "drain (microtask r) = Some r'" "shape dn (l # ls) r'" "inflight dn l r'"
      "ended (trace r') = ended (trace (microtask r))"
      using Suc.hyps(1) [OF _ sh q(1)] by blast
    then show ?thesis using drain_step [of r] m by (auto simp: ended_microtask)
  qed
qed

lemma advance_queued:
  assumes "shape dn (l # l' # ls') r" and "catching dn l r"
  shows "queued (dn @ [l]) l' ls' (microtask r)"
proof -
  have sh: "shape (dn @ [l]) (l' # ls') (microtask r)" using assms by (rule shape_advance)
  have w: "waiting r (set (refs_of (dn @ l # l' # ls'))) (next_promise r)
             (insert (link_id l) (set (map link_id dn))) (link_catch l) (l' # ls')"
    using assms(1) by (simp add: shape_def front_active)
  then obtain srs where
    srs: "reactions (promises r (link_catch l)) =
            srs @ [then_reaction (ExecuteAction (link_id l')) (link_then l')]"
    and pend: "state (promises r (link_catch l)) = None"
    by auto
  obtain s where s: "microtasks r = [(catch_reaction LogActionFailed (link_catch l), s)]"
    using assms(2) unfolding catching_def by blast
  obtain fx where
    fx: "run_job (catch_reaction LogActionFailed (link_catch l), s) (r\<lparr>microtasks := []\<rparr>) =
           settle (link_catch l) Fulfilled (r\<lparr>microtasks := [], trace := trace r @ map Effect fx\<rparr>)"
    using run_catch_job [of "link_catch l" s "r\<lparr>microtasks := []\<rparr>"] by auto
  have mt: "microtasks (microtask r) =
          map (\<lambda>x. (x, Fulfilled)) srs @ [(then_reaction (ExecuteAction (link_id l')) (link_then l'), Fulfilled)]"
    using s pend srs by (simp add: microtask_def fx settle_def)
  have "\<not> inflight (dn @ [l]) l' (microtask r)" using mt by (simp add: inflight_def)
  moreover have "\<not> catching (dn @ [l]) l' (microtask r)"
    using mt by (auto simp: catching_def then_reaction_def catch_reaction_def Cons_eq_append_conv)
  ultimately show ?thesis using sh by (auto simp: shape_def front_active)
qed

lemma drain_shape:
  assumes "shape dn rest r"
  shows "\<exists>r' dn' rest'. drain r = Some r' \<and> dn' @ rest' = dn @ rest \<and> shape dn' rest' r' \<and>
           microtasks r' = [] \<and> ended (trace r') = ended (trace r)"
proof (cases rest)
  case Nil
  then show ?thesis using drain_idle [OF assms [unfolded Nil]] by (metis append_Nil2)
next
  case (Cons l ls)
  then consider "queued dn l ls r" | "inflight dn l r" | "catching dn l r"
    using assms by (auto simp: shape_def front_active)
  then show ?thesis
  proof cases
    case 1
    obtain r' where "drain r = Some r'" "shape dn (l # ls) r'" "inflight dn l r'"
      "ended (trace r') = ended (trace r)"
      using drain_queued [OF assms [unfolded Cons] 1] by blast
    then show ?thesis unfolding Cons by (auto simp: inflight_def)
  next
    case 2
    then have "drain r = Some r" by (simp add: inflight_def drain_empty)
    then show ?thesis using assms 2 by (auto simp: inflight_def)
  next
    case 3
    have ne: "microtasks r \<noteq> []" using 3 by (auto simp: catching_def)
    have sh: "shape (dn @ [l]) ls (microtask r)" using assms [unfolded Cons] 3 by (rule shape_advance)
    show ?thesis
    proof (cases ls)
      case Nil
      obtain r' where "drain (microtask r) = Some r'" "shape (dn @ [l]) [] r'" "microtasks r' = []"
        "ended (trace r') = ended (trace (microtask r))"
        using drain_idle [OF sh [unfolded Nil]] by blast
      then show ?thesis unfolding Cons Nil using drain_step [OF ne]
        by (intro exI [of _ r'] exI [of _ "dn @ [l]"] exI [of _ "[]"]) (simp add: ended_microtask)
    next
      case c: (Cons l' ls')
      have q: "queued (dn @ [l]) l' ls' (microtask r)"
        using assms 3 unfolding Cons c by (rule advance_queued)
      obtain r' where "drain (microtask r) = Some r'" "shape (dn @ [l]) (l' # ls') r'"
        "inflight (dn @ [l]) l' r'" "ended (trace r') = ended (trace (microtask r))"
        using drain_queued [OF sh [unfolded c] q] by blast
      then show ?thesis unfolding Cons c using drain_step [OF ne]
        by (intro exI [of _ r'] exI [of _ "dn @ [l]"] exI [of _ "l' # ls'"])
           (simp add: ended_microtask inflight_def)
    qed
  qed
qed

lemma shape_drained_started:
  assumes "shape dn rest r" and "microtasks r = []"
  shows "started (trace r) = take (Suc (length (ended (trace r)))) (map link_id (dn @ rest))"
proof -
  have s: "started (trace r) = started (calls (trace r))"
    and e: "ended (trace r) = ended (calls (trace r))" by simp_all
  show ?thesis
  proof (cases rest)
    case Nil
    then have "calls (trace r) = pairs dn" using assms(1) by (simp add: shape_def front_idle)
    then show ?thesis unfolding s e Nil by simp
  next
    case (Cons l ls)
    then have "inflight dn l r"
      using assms by (auto simp: shape_def front_active queued_def catching_def)
    then have "calls (trace r) = pairs dn @ [Started (link_id l)]" by (simp add: inflight_def)
    then show ?thesis unfolding s e Cons by simp
  qed
qed

lemma inv_drain:
  assumes "inv F r"
  shows "\<exists>r'. drain r = Some r' \<and> inv F r' \<and> microtasks r' = [] \<and>
              started (trace r') = take (Suc (length (ended (trace r)))) F"
proof -
  obtain dn rest where F: "F = map link_id (dn @ rest)" and sh: "shape dn rest r"
    using assms unfolding inv_def by blast
  obtain r' dn' rest' where r': "drain r = Some r'" "dn' @ rest' = dn @ rest" "shape dn' rest' r'"
    "microtasks r' = []" "ended (trace r') = ended (trace r)"
    using drain_shape [OF sh] by blast
  have "inv F r'" unfolding inv_def F using r'(2,3) by metis
  moreover have "started (trace r') = take (Suc (length (ended (trace r)))) F"
    using shape_drained_started [OF r'(3,4)] r'(2,5) F by simp
  ultimately show ?thesis using r'(1,4) by blast
qed

lemma ended_run_no_settle:
  "\<forall>e\<in>set es. \<not> is_settle e \<Longrightarrow> ended (trace (run es r)) = ended (trace r)"
proof (induction es arbitrary: r)
  case Nil
  then show ?case by simp
next
  case (Cons e es)
  have "(case e of
           HandlerSettles i sb \<Rightarrow> if find (\<lambda>c. fst c = i) (suspended r) = None then [] else [i]
         | _ \<Rightarrow> []) = []"
    using Cons.prems by (cases e) simp_all
  then have "ended (trace (step e r)) = ended (trace r)"
    using ended_step [of e r] by (simp only: append_Nil2)
  then show ?case using Cons by simp
qed

lemma inv_inflight:
  assumes "inv F r" and "find (\<lambda>c. fst c = i) (suspended r) = Some c"
  obtains dn l ls snap where "F = map link_id (dn @ l # ls)" and "shape dn (l # ls) r"
    and "inflight dn l r" and "i = link_id l" and "c = (link_id l, snap, link_then l)"
proof -
  obtain dn rest where F: "F = map link_id (dn @ rest)" and sh: "shape dn rest r"
    using assms(1) unfolding inv_def by blast
  have ne: "suspended r \<noteq> []" using assms(2) by auto
  then obtain l ls where rest: "rest = l # ls"
    using sh by (cases rest) (auto simp: shape_def front_idle)
  have inf: "inflight dn l r"
    using sh ne by (auto simp: shape_def rest front_active queued_def catching_def)
  then obtain snap where sus: "suspended r = [(link_id l, snap, link_then l)]"
    unfolding inflight_def by blast
  then have "i = link_id l" "c = (link_id l, snap, link_then l)"
    using assms(2) by (auto split: if_splits)
  then show ?thesis using that F sh inf rest by blast
qed

lemma failed_handler_logged:
  assumes "inv F r" and "find (\<lambda>c. fst c = i) (suspended r) = Some (i, a, p)"
    and "snd (run_handler sb a) = Inl err"
  shows "map_option (\<lambda>st. (status st, error st)) (actions (handlerSettles i sb r) i) =
           Some (Failed, Some ''Action failed'')"
    and "trace (microtask (handlerSettles i sb r)) =
           trace (handlerSettles i sb r) @ [Effect (ConsoleError ''Action failed:'')]"
    and "length (started (trace r)) = length (ended (trace (handlerSettles i sb r)))"
proof -
  obtain dn l ls snap where F: "F = map link_id (dn @ l # ls)" and sh: "shape dn (l # ls) r"
    and inf: "inflight dn l r" and i: "i = link_id l" and c: "(i, a, p) = (link_id l, snap, link_then l)"
    using inv_inflight [OF assms(1,2)] by metis
  obtain st where st: "actions r i = Some st" using inv_suspended_record [OF assms(1,2)] by blast
  show "map_option (\<lambda>st. (status st, error st)) (actions (handlerSettles i sb r) i) =
           Some (Failed, Some ''Action failed'')"
    unfolding handlerSettles_found [OF assms(2)] using st assms(3)
    by (simp add: actions_resumeExecuteAction)
  have mt: "microtasks r = []"
    and t: "promises r p = \<lparr>state = None, reactions = [catch_reaction LogActionFailed (link_catch l)]\<rparr>"
    and tr: "calls (trace r) = pairs dn @ [Started (link_id l)]"
    using inf c by (auto simp: inflight_def)
  have "microtasks (handlerSettles i sb r) = [(catch_reaction LogActionFailed (link_catch l), Rejected)]"
    unfolding handlerSettles_found [OF assms(2)] using assms(3) mt t
    by (auto simp: resumeExecuteAction_def settle_def split: prod.splits)
  then show "trace (microtask (handlerSettles i sb r)) =
           trace (handlerSettles i sb r) @ [Effect (ConsoleError ''Action failed:'')]"
    by (simp add: microtask_def run_job_def catch_reaction_def run_callback_def)
  have "started (trace r) = started (calls (trace r))" by simp
  then have "length (started (trace r)) = Suc (length (ended (calls (trace r))))"
    unfolding tr by simp
  then show "length (started (trace r)) = length (ended (trace (handlerSettles i sb r)))"
    using assms(2) by (simp add: ended_handlerSettles)
qed

text \<open>
  C3. When the handler of the action in flight raises an error, the record of that action gets
  the status \<open>Failed\<close> with the error text \<^verbatim>\<open>Action failed\<close>; the rejection is caught at the end
  of the link, where the next microtask only logs it. The chain goes on: whatever is registered,
  finalized or cancelled afterwards (no other handler settles), the microtask queue drains, and
  when it has drained the action finalized next after the failed one has been started.
\<close>

theorem failure_is_isolated:
  assumes "find (\<lambda>c. fst c = i) (suspended (run es init)) = Some (i, a, p)"
      and "snd (run_handler sb a) = Inl err"
      and "\<forall>e\<in>set es'. \<not> is_settle e"
  shows "map_option (\<lambda>st. (status st, error st))
           (actions (step (HandlerSettles i sb) (run es init)) i) = Some (Failed, Some ''Action failed'') \<and>
         trace (step Microtask (step (HandlerSettles i sb) (run es init))) =
           trace (step (HandlerSettles i sb) (run es init)) @ [Effect (ConsoleError ''Action failed:'')] \<and>
         (\<exists>r'. drain (run (es @ HandlerSettles i sb # es') init) = Some r' \<and>
               started (trace r') =
                 take (Suc (length (started (trace (run es init)))))
                   (finalized init (es @ HandlerSettles i sb # es')))"
proof -
  let ?r = "run es init" and ?es = "es @ HandlerSettles i sb # es'"
  note f = failed_handler_logged [OF inv_reachable assms(1,2)]
  obtain r' where r': "drain (run ?es init) = Some r'"
    "started (trace r') = take (Suc (length (ended (trace (run ?es init))))) (finalized init ?es)"
    using inv_drain [OF inv_reachable [of ?es]] by blast
  have "ended (trace (run ?es init)) = ended (trace (handlerSettles i sb ?r))"
    using ended_run_no_settle [OF assms(3)] by (simp add: run_append)
  then have "length (ended (trace (run ?es init))) = length (started (trace ?r))"
    using f(3) by simp
  then show ?thesis using f(1,2) r' by simp
qed

theorem failure_is_isolated_witness:
  "map_option (\<lambda>st. (status st, error st))
     (actions
        (step (HandlerSettles ''a'' (sample_container 0 (Inr ()) (Inr ()) [''bad syntax'']))
           (run contract_running init)) ''a'') = Some (Failed, Some ''Action failed'') \<and>
   (\<exists>r'. drain (run (contract_running @
                     HandlerSettles ''a'' (sample_container 0 (Inr ()) (Inr ()) [''bad syntax'']) #
                     [AddAction ''c'' (FileAction ''hi'' ''src/a.txt''),
                      RunAction ''c'' (FileAction ''hi'' ''src/a.txt'')]) init) = Some r' \<and>
         started (trace r') = [''a'', ''b''])"
  using failure_is_isolated
          [of "''a''" contract_running
              "\<lparr>action = ContractAction ''contract C {'' Solidity ''C.sol'' None None None,
                status = Running, executed = True, error = None\<rparr>" 2
              "sample_container 0 (Inr ()) (Inr ()) [''bad syntax'']" "Thrown ''Compilation failed''"
              "[AddAction ''c'' (FileAction ''hi'' ''src/a.txt''),
                RunAction ''c'' (FileAction ''hi'' ''src/a.txt'')]"]
  by (simp add: contract_running_def eval_defs handler_defs sample_container_def finalizes_def)

section \<open>The callback of registration\<close>














lemma finalized_microtasks [simp]: "finalized r (replicate n Microtask) = []"
  by (induction n arbitrary: r) (simp_all add: finalizes_def)






end
